theory Spec2Isabelle
  imports Main "HOL-Library.Multiset" "HOL-Library.Char_ord" "HOL-Library.List_Lexorder"
begin

section \<open>The key-addressable copy-on-write stack of stack.h\<close>

text \<open>
  The class \<^verbatim>\<open>cxx::stack<K, V>\<close> holds two \<^verbatim>\<open>shared_ptr\<close> handles and a flag.
  The objects the handles point to live in an explicit store, so that several stack
  objects can alias one storage, as copy-on-write needs.  An exception of the source is an
  \<open>Inl\<close> result.  Undefined behaviour of C++ (dereferencing an empty \<^verbatim>\<open>shared_ptr\<close>, an
  \<^verbatim>\<open>end()\<close> iterator, popping an empty \<^verbatim>\<open>std::stack\<close>) is the result \<open>Inl Undefined\<close>.
\<close>

subsection \<open>Data\<close>

text \<open>
  The \<^verbatim>\<open>throw std::invalid_argument\<close> sites for an empty stack (lines 221, 256, 264) are
  \<open>EmptyContainer\<close>, those for a missing key (lines 242, 276, 285, 290) \<open>KeyNotFound\<close>;
  \<^verbatim>\<open>std::bad_alloc\<close> is \<open>BadAlloc\<close>.  \<open>OutOfFuel\<close> belongs to the model only: it bounds the
  nesting of \<^verbatim>\<open>push\<close> inside \<^verbatim>\<open>about_to_modify\<close>.
\<close>

datatype error = EmptyContainer | KeyNotFound | BadAlloc | Undefined | OutOfFuel

text \<open>
  A \<^verbatim>\<open>std::list\<close> iterator is the identity of a list node: it stays valid while other
  nodes come and go.  A node carries its identity, its key (the \<^verbatim>\<open>shared_ptr<K>\<close> is
  always dereferenced when compared, so the handle is the key value) and its value.
  The front of the list is the head.  A \<^verbatim>\<open>std::stack\<close> of iterators has its top at the
  head.  The \<^verbatim>\<open>std::map\<close> is the sequence of its entries in iteration order.
\<close>

type_synonym iter = nat
type_synonym ('k, 'v) main_stack_t = "(iter \<times> 'k \<times> 'v) list"
type_synonym key_stack_t = "iter list"
type_synonym 'k stacks_map_t = "('k \<times> key_stack_t) list"

record stack =
  main_stack :: "nat option"
  stacks_map :: "nat option"
  shareable :: bool

text \<open>
  The store: the \<^verbatim>\<open>main_stack_t\<close> and \<^verbatim>\<open>stacks_map_t\<close> objects by address, the next
  unused address, and the fault plan of the run: \<open>Some n\<close> makes the allocation attempt
  after \<open>n\<close> successful ones throw \<^verbatim>\<open>std::bad_alloc\<close>, \<open>None\<close> lets every allocation succeed.
\<close>

record ('k, 'v) heap =
  main_cells :: "nat \<Rightarrow> ('k, 'v) main_stack_t"
  map_cells :: "nat \<Rightarrow> 'k stacks_map_t"
  next_addr :: nat
  faults :: "nat option"

record atm_guard =
  old_main_stack :: "nat option"
  old_stacks_map :: "nat option"
  old_shareable :: bool
  roll_back :: bool

subsection \<open>Allocation and the standard containers\<close>

definition alloc :: "('k, 'v) heap \<Rightarrow> error + ('k, 'v) heap" where
  "alloc h =
     (case faults h of
        None \<Rightarrow> Inr h
      | Some n \<Rightarrow> (case n of 0 \<Rightarrow> Inl BadAlloc | Suc m \<Rightarrow> Inr (h\<lparr>faults := Some m\<rparr>)))"

definition set_main :: "nat \<Rightarrow> ('k, 'v) main_stack_t \<Rightarrow> ('k, 'v) heap \<Rightarrow> ('k, 'v) heap" where
  "set_main a xs h = h\<lparr>main_cells := (main_cells h)(a := xs)\<rparr>"

definition set_map :: "nat \<Rightarrow> 'k stacks_map_t \<Rightarrow> ('k, 'v) heap \<Rightarrow> ('k, 'v) heap" where
  "set_map b m h = h\<lparr>map_cells := (map_cells h)(b := m)\<rparr>"

text \<open>\<^verbatim>\<open>std::make_shared<main_stack_t>()\<close> and \<^verbatim>\<open>std::make_shared<stacks_map_t>()\<close>.\<close>

definition make_shared_main :: "('k, 'v) heap \<Rightarrow> error + nat \<times> ('k, 'v) heap" where
  "make_shared_main h =
     (case alloc h of
        Inl e \<Rightarrow> Inl e
      | Inr h1 \<Rightarrow> Inr (next_addr h1, (set_main (next_addr h1) [] h1)\<lparr>next_addr := Suc (next_addr h1)\<rparr>))"

definition make_shared_map :: "('k, 'v) heap \<Rightarrow> error + nat \<times> ('k, 'v) heap" where
  "make_shared_map h =
     (case alloc h of
        Inl e \<Rightarrow> Inl e
      | Inr h1 \<Rightarrow> Inr (next_addr h1, (set_map (next_addr h1) [] h1)\<lparr>next_addr := Suc (next_addr h1)\<rparr>))"

text \<open>
  \<^verbatim>\<open>shared_ptr::use_count()\<close>: the number of live handles that own the object, \<open>0\<close> for
  an empty handle.  The live handles are passed in.
\<close>

definition use_count :: "nat option \<Rightarrow> nat option list \<Rightarrow> nat" where
  "use_count p handles =
     (case p of None \<Rightarrow> 0 | Some a \<Rightarrow> length (filter (\<lambda>q. q = Some a) handles))"

text \<open>\<^verbatim>\<open>!p.use_count()\<close>: a handle counts itself, so the count is zero for the empty handle only.\<close>

definition no_storage :: "nat option \<Rightarrow> bool" where
  "no_storage p = (use_count p [p] = 0)"

text \<open>The node a fresh \<^verbatim>\<open>push_front\<close> allocates differs from every node of the list.\<close>

fun new_iter :: "('k, 'v) main_stack_t \<Rightarrow> iter" where
  "new_iter [] = 0"
| "new_iter (e # es) = max (Suc (fst e)) (new_iter es)"

text \<open>\<^verbatim>\<open>main_stack->erase(it)\<close> and the node an iterator points to.\<close>

definition list_erase :: "iter \<Rightarrow> ('k, 'v) main_stack_t \<Rightarrow> ('k, 'v) main_stack_t" where
  "list_erase it xs = filter (\<lambda>e. fst e \<noteq> it) xs"

fun node_at :: "iter \<Rightarrow> ('k, 'v) main_stack_t \<Rightarrow> ('k \<times> 'v) option" where
  "node_at it [] = None"
| "node_at it (e # es) = (if fst e = it then Some (snd e) else node_at it es)"

text \<open>The comparator \<^verbatim>\<open>KComp\<close> and the equivalence of keys \<^verbatim>\<open>std::map\<close> derives from it.\<close>

definition KComp :: "'k::linorder \<Rightarrow> 'k \<Rightarrow> bool" where
  "KComp lhs rhs = (lhs < rhs)"

definition key_equiv :: "'k::linorder \<Rightarrow> 'k \<Rightarrow> bool" where
  "key_equiv a b = (\<not> KComp a b \<and> \<not> KComp b a)"

text \<open>
  \<^verbatim>\<open>find\<close> (\<open>None\<close> is \<^verbatim>\<open>end()\<close>; an iterator to an entry is the entry's key),
  \<^verbatim>\<open>insert({k, {}})\<close> (no effect when an equivalent key is present), \<^verbatim>\<open>erase(it)\<close>, and
  a change of \<^verbatim>\<open>it->second\<close>.
\<close>

fun map_find :: "'k::linorder \<Rightarrow> 'k stacks_map_t \<Rightarrow> key_stack_t option" where
  "map_find k [] = None"
| "map_find k (e # m) = (if key_equiv k (fst e) then Some (snd e) else map_find k m)"

fun map_insert :: "'k::linorder \<Rightarrow> 'k stacks_map_t \<Rightarrow> 'k stacks_map_t" where
  "map_insert k [] = [(k, [])]"
| "map_insert k (e # m) =
     (if KComp k (fst e) then (k, []) # e # m
      else if KComp (fst e) k then e # map_insert k m
      else e # m)"

definition map_erase :: "'k::linorder \<Rightarrow> 'k stacks_map_t \<Rightarrow> 'k stacks_map_t" where
  "map_erase k m = filter (\<lambda>e. \<not> key_equiv k (fst e)) m"

definition map_modify ::
  "'k::linorder \<Rightarrow> (key_stack_t \<Rightarrow> key_stack_t) \<Rightarrow> 'k stacks_map_t \<Rightarrow> 'k stacks_map_t" where
  "map_modify k f m = map (\<lambda>e. if key_equiv k (fst e) then (fst e, f (snd e)) else e) m"

subsection \<open>The rollback guards\<close>

text \<open>
  Each guard class is its constructor (which may throw before the guard exists) and its
  destructor, which takes the guard's \<^verbatim>\<open>roll_back\<close> flag.  The guards hold references to
  the handles of the stack, here the addresses \<open>a\<close> and \<open>b\<close>.
\<close>

definition main_stack_guard :: "nat \<Rightarrow> 'k \<Rightarrow> 'v \<Rightarrow> ('k, 'v) heap \<Rightarrow> error + ('k, 'v) heap" where
  "main_stack_guard a k v h =
     (case alloc h of
        Inl e \<Rightarrow> Inl e
      | Inr h1 \<Rightarrow> Inr (set_main a ((new_iter (main_cells h1 a), k, v) # main_cells h1 a) h1))"

definition main_stack_guard_dtor :: "bool \<Rightarrow> nat \<Rightarrow> ('k, 'v) heap \<Rightarrow> ('k, 'v) heap" where
  "main_stack_guard_dtor rb a h = (if rb then set_main a (tl (main_cells h a)) h else h)"

definition stackmap_key_guard ::
  "nat \<Rightarrow> 'k::linorder \<Rightarrow> ('k, 'v) heap \<Rightarrow> error + ('k, 'v) heap" where
  "stackmap_key_guard b k h =
     (case alloc h of
        Inl e \<Rightarrow> Inl e
      | Inr h1 \<Rightarrow> Inr (set_map b (map_insert k (map_cells h1 b)) h1))"

definition stackmap_key_guard_dtor ::
  "bool \<Rightarrow> nat \<Rightarrow> 'k::linorder \<Rightarrow> ('k, 'v) heap \<Rightarrow> ('k, 'v) heap" where
  "stackmap_key_guard_dtor rb b k h = (if rb then set_map b (map_erase k (map_cells h b)) h else h)"

definition stackmap_push_guard ::
  "nat \<Rightarrow> 'k::linorder \<Rightarrow> iter \<Rightarrow> ('k, 'v) heap \<Rightarrow> error + ('k, 'v) heap" where
  "stackmap_push_guard b k it h =
     (case alloc h of
        Inl e \<Rightarrow> Inl e
      | Inr h1 \<Rightarrow> Inr (set_map b (map_modify k (\<lambda>st. it # st) (map_cells h1 b)) h1))"

definition stackmap_push_guard_dtor ::
  "bool \<Rightarrow> nat \<Rightarrow> 'k::linorder \<Rightarrow> ('k, 'v) heap \<Rightarrow> ('k, 'v) heap" where
  "stackmap_push_guard_dtor rb b k h =
     (if rb then set_map b (map_modify k tl (map_cells h b)) h else h)"

definition drop_roll_back :: "atm_guard \<Rightarrow> atm_guard" where
  "drop_roll_back g = g\<lparr>roll_back := False\<rparr>"

definition about_to_modify_dtor :: "atm_guard \<Rightarrow> stack \<Rightarrow> stack" where
  "about_to_modify_dtor g st =
     (if roll_back g
      then st\<lparr>main_stack := old_main_stack g, stacks_map := old_stacks_map g,
              shareable := old_shareable g\<rparr>
      else st)"

subsection \<open>Construction and the body of push\<close>

text \<open>The default constructor \<^verbatim>\<open>stack()\<close>.\<close>

definition stack_ctor :: "('k, 'v) heap \<Rightarrow> (error + stack) \<times> ('k, 'v) heap" where
  "stack_ctor h =
     (case make_shared_main h of
        Inl e \<Rightarrow> (Inl e, h)
      | Inr (a, h1) \<Rightarrow>
          (case make_shared_map h1 of
             Inl e \<Rightarrow> (Inl e, h1)
           | Inr (b, h2) \<Rightarrow>
               (Inr \<lparr>main_stack = Some a, stacks_map = Some b, shareable = True\<rparr>, h2)))"

text \<open>
  Lines 194 to 215 of \<^verbatim>\<open>push\<close>, after the copy-on-write guard: the key handle, the
  lookup, the new front node, then the key's stack.  Leaving by an exception runs the
  destructors of the guards built so far, innermost first.
\<close>

definition push_body ::
  "'k::linorder \<Rightarrow> 'v \<Rightarrow> stack \<Rightarrow> ('k, 'v) heap \<Rightarrow> (error + unit) \<times> ('k, 'v) heap" where
  "push_body k v s h =
     (case alloc h of
        Inl e \<Rightarrow> (Inl e, h)
      | Inr h1 \<Rightarrow>
     (case stacks_map s of
        None \<Rightarrow> (Inl Undefined, h1)
      | Some b \<Rightarrow>
     (case main_stack s of
        None \<Rightarrow> (Inl Undefined, h1)
      | Some a \<Rightarrow>
     (let key_in_stack = map_find k (map_cells h1 b) in
      case main_stack_guard a k v h1 of
        Inl e \<Rightarrow> (Inl e, h1)
      | Inr h2 \<Rightarrow>
     (case main_cells h2 a of
        [] \<Rightarrow> (Inl Undefined, main_stack_guard_dtor True a h2)
      | e # es \<Rightarrow>
     (let it = fst e in
      case key_in_stack of
        None \<Rightarrow>
          (case stackmap_key_guard b k h2 of
             Inl e \<Rightarrow> (Inl e, main_stack_guard_dtor True a h2)
           | Inr h3 \<Rightarrow>
               (case stackmap_push_guard b k it h3 of
                  Inl e \<Rightarrow>
                    (Inl e, main_stack_guard_dtor True a (stackmap_key_guard_dtor True b k h3))
                | Inr h4 \<Rightarrow>
                    (Inr (),
                     main_stack_guard_dtor False a
                       (stackmap_key_guard_dtor False b k
                         (stackmap_push_guard_dtor False b k h4)))))
      | Some st \<Rightarrow>
          (case stackmap_push_guard b k it h2 of
             Inl e \<Rightarrow> (Inl e, main_stack_guard_dtor True a h2)
           | Inr h3 \<Rightarrow>
               (Inr (), main_stack_guard_dtor False a (stackmap_push_guard_dtor False b k h3)))))))))"

subsection \<open>push, the copy-on-write guard and the deep copy\<close>

text \<open>
  \<^verbatim>\<open>push\<close> builds an \<^verbatim>\<open>about_to_modify\<close>, whose constructor may call \<^verbatim>\<open>copy\<close>, which
  calls \<^verbatim>\<open>push\<close> on the new stack.  The cycle is cut by a bound on its depth: \<open>push n\<close>
  may nest \<open>n\<close> deep, and \<open>copy\<close> and the guard take the \<open>push\<close> they may call.

  \<open>others\<close> are the live stack objects other than \<open>s\<close>.  Inside the constructor of the
  guard the handles that own \<open>s\<close>'s storage are \<open>s\<close>'s own, the guard's \<^verbatim>\<open>old_main_stack\<close>
  and those of \<open>others\<close>.  While \<^verbatim>\<open>new_stack\<close> is filled, the live handles besides its own
  are those of \<open>s\<close>, of the suspended guard (a copy of \<open>s\<close>'s) and of \<open>others\<close>.

  \<^verbatim>\<open>copy\<close> walks the source list from \<^verbatim>\<open>crbegin()\<close> to \<^verbatim>\<open>crend()\<close>, oldest entry first.
  When the constructor of the guard throws, no guard exists and nothing is restored.
\<close>

type_synonym ('k, 'v) push_fn =
  "'k \<Rightarrow> 'v \<Rightarrow> stack \<Rightarrow> stack list \<Rightarrow> ('k, 'v) heap \<Rightarrow> (error + unit) \<times> stack \<times> ('k, 'v) heap"

primrec copy_loop ::
  "('k, 'v) push_fn \<Rightarrow> ('k, 'v) main_stack_t \<Rightarrow> stack \<Rightarrow> stack list \<Rightarrow> ('k, 'v) heap
     \<Rightarrow> (error + unit) \<times> stack \<times> ('k, 'v) heap" where
  "copy_loop nested_push [] self others h = (Inr (), self, h)"
| "copy_loop nested_push (e # es) self others h =
     (case nested_push (fst (snd e)) (snd (snd e)) self others h of
        (Inl err, self1, h1) \<Rightarrow> (Inl err, self1, h1)
      | (Inr u, self1, h1) \<Rightarrow> copy_loop nested_push es self1 others h1)"

definition copy ::
  "('k, 'v) push_fn \<Rightarrow> stack \<Rightarrow> stack \<Rightarrow> stack list \<Rightarrow> ('k, 'v) heap
     \<Rightarrow> (error + unit) \<times> stack \<times> ('k, 'v) heap" where
  "copy nested_push other self others h =
     (if \<not> no_storage (main_stack other) then
        (case main_stack other of
           None \<Rightarrow> (Inl Undefined, self, h)
         | Some a \<Rightarrow> copy_loop nested_push (rev (main_cells h a)) self others h)
      else (Inr (), self, h))"

definition about_to_modify ::
  "('k, 'v) push_fn \<Rightarrow> stack \<Rightarrow> stack list \<Rightarrow> bool \<Rightarrow> ('k, 'v) heap
     \<Rightarrow> (error + atm_guard) \<times> stack \<times> ('k, 'v) heap" where
  "about_to_modify nested_push s others mark_shareable h =
     (let g = \<lparr>old_main_stack = main_stack s, old_stacks_map = stacks_map s,
               old_shareable = shareable s, roll_back = False\<rparr>;
          handles = main_stack s # old_main_stack g # map main_stack others
      in
      if no_storage (main_stack s) then
        (case make_shared_main h of
           Inl e \<Rightarrow> (Inl e, s, h)
         | Inr (a, h1) \<Rightarrow>
             (case make_shared_map h1 of
                Inl e \<Rightarrow> (Inl e, s\<lparr>main_stack := Some a\<rparr>, h1)
              | Inr (b, h2) \<Rightarrow>
                  (Inr (g\<lparr>roll_back := True\<rparr>),
                   s\<lparr>main_stack := Some a, stacks_map := Some b, shareable := mark_shareable\<rparr>,
                   h2)))
      else if use_count (main_stack s) handles > 2 then
        (case stack_ctor h of
           (Inl e, h1) \<Rightarrow> (Inl e, s, h1)
         | (Inr new_stack, h1) \<Rightarrow>
             (case copy nested_push s new_stack (s # s # others) h1 of
                (Inl e, new_stack', h2) \<Rightarrow> (Inl e, s, h2)
              | (Inr u, new_stack', h2) \<Rightarrow>
                  (Inr (g\<lparr>roll_back := True\<rparr>),
                   new_stack'\<lparr>shareable := mark_shareable\<rparr>, h2)))
      else (Inr (g\<lparr>roll_back := True\<rparr>), s\<lparr>shareable := mark_shareable\<rparr>, h))"

definition push_with :: "('k::linorder, 'v) push_fn \<Rightarrow> ('k, 'v) push_fn" where
  "push_with nested_push k v s others h =
     (case about_to_modify nested_push s others True h of
        (Inl e, s1, h1) \<Rightarrow> (Inl e, s1, h1)
      | (Inr make_stack_copy, s1, h1) \<Rightarrow>
          (case push_body k v s1 h1 of
             (Inl e, h2) \<Rightarrow> (Inl e, about_to_modify_dtor make_stack_copy s1, h2)
           | (Inr u, h2) \<Rightarrow>
               (Inr (), about_to_modify_dtor (drop_roll_back make_stack_copy) s1, h2)))"

primrec push :: "nat \<Rightarrow> ('k::linorder, 'v) push_fn" where
  "push 0 = (\<lambda>k v s others h. (Inl OutOfFuel, s, h))"
| "push (Suc n) = push_with (push n)"

subsection \<open>pop, pop(k) and the accessors\<close>

text \<open>\<^verbatim>\<open>*main_stack\<close> and \<^verbatim>\<open>*stacks_map\<close>: \<open>None\<close> when the handle is empty.\<close>

definition deref_main :: "stack \<Rightarrow> ('k, 'v) heap \<Rightarrow> ('k, 'v) main_stack_t option" where
  "deref_main s h = map_option (main_cells h) (main_stack s)"

definition deref_map :: "stack \<Rightarrow> ('k, 'v) heap \<Rightarrow> 'k stacks_map_t option" where
  "deref_map s h = map_option (map_cells h) (stacks_map s)"

text \<open>Lines 225 to 231 of \<^verbatim>\<open>pop()\<close>; none of these steps allocates.\<close>

definition pop_body :: "stack \<Rightarrow> ('k::linorder, 'v) heap \<Rightarrow> error + ('k, 'v) heap" where
  "pop_body s h =
     (case (main_stack s, stacks_map s) of
        (Some a, Some b) \<Rightarrow>
          (case main_cells h a of
             [] \<Rightarrow> Inl Undefined
           | main_stack_top # es \<Rightarrow>
               (let k = fst (snd main_stack_top) in
                case map_find k (map_cells h b) of
                  None \<Rightarrow> Inl Undefined
                | Some st \<Rightarrow>
                    (if st = [] then Inl Undefined
                     else
                       let m1 = map_modify k tl (map_cells h b);
                           m2 = (if length (tl st) = 0 then map_erase k m1 else m1)
                       in Inr (set_main a es (set_map b m2 h)))))
      | _ \<Rightarrow> Inl Undefined)"

text \<open>
  \<^verbatim>\<open>throw std::invalid_argument("...")\<close>: the exception keeps its message in a string on the
  heap, so building it is one more allocation attempt; when that attempt fails,
  \<^verbatim>\<open>std::bad_alloc\<close> is what leaves the call.
\<close>

definition throw_invalid_argument :: "error \<Rightarrow> ('k, 'v) heap \<Rightarrow> error \<times> ('k, 'v) heap" where
  "throw_invalid_argument e h = (case alloc h of Inl b \<Rightarrow> (b, h) | Inr h1 \<Rightarrow> (e, h1))"

definition pop ::
  "nat \<Rightarrow> stack \<Rightarrow> stack list \<Rightarrow> ('k::linorder, 'v) heap
     \<Rightarrow> (error + unit) \<times> stack \<times> ('k, 'v) heap" where
  "pop n s others h =
     (if no_storage (main_stack s) \<or> deref_main s h = Some [] then
        (case throw_invalid_argument EmptyContainer h of (e, h1) \<Rightarrow> (Inl e, s, h1))
      else
        (case about_to_modify (push n) s others True h of
           (Inl e, s1, h1) \<Rightarrow> (Inl e, s1, h1)
         | (Inr make_stack_copy, s1, h1) \<Rightarrow>
             (case pop_body s1 h1 of
                Inl e \<Rightarrow> (Inl e, about_to_modify_dtor make_stack_copy s1, h1)
              | Inr h2 \<Rightarrow>
                  (Inr (), about_to_modify_dtor (drop_roll_back make_stack_copy) s1, h2))))"

text \<open>Lines 237 to 250 of \<^verbatim>\<open>pop(const K&)\<close>.\<close>

definition pop_key_body ::
  "'k::linorder \<Rightarrow> stack \<Rightarrow> ('k, 'v) heap \<Rightarrow> (error + unit) \<times> ('k, 'v) heap" where
  "pop_key_body k s h =
     (case alloc h of
        Inl e \<Rightarrow> (Inl e, h)
      | Inr h1 \<Rightarrow>
          (case (main_stack s, stacks_map s) of
             (Some a, Some b) \<Rightarrow>
               (case map_find k (map_cells h1 b) of
                  None \<Rightarrow> (case throw_invalid_argument KeyNotFound h1 of (e, h2) \<Rightarrow> (Inl e, h2))
                | Some st \<Rightarrow>
                    (case st of
                       [] \<Rightarrow>
                         (case throw_invalid_argument KeyNotFound h1 of (e, h2) \<Rightarrow> (Inl e, h2))
                     | tp # st' \<Rightarrow>
                         (if node_at tp (main_cells h1 a) = None then (Inl Undefined, h1)
                          else
                            let h2 = set_main a (list_erase tp (main_cells h1 a)) h1;
                                m1 = map_modify k tl (map_cells h2 b);
                                m2 = (if length st' = 0 then map_erase k m1 else m1)
                            in (Inr (), set_map b m2 h2))))
           | _ \<Rightarrow> (Inl Undefined, h1)))"

definition pop_key ::
  "nat \<Rightarrow> 'k::linorder \<Rightarrow> stack \<Rightarrow> stack list \<Rightarrow> ('k, 'v) heap
     \<Rightarrow> (error + unit) \<times> stack \<times> ('k, 'v) heap" where
  "pop_key n k s others h =
     (case about_to_modify (push n) s others True h of
        (Inl e, s1, h1) \<Rightarrow> (Inl e, s1, h1)
      | (Inr make_stack_copy, s1, h1) \<Rightarrow>
          (case pop_key_body k s1 h1 of
             (Inl e, h2) \<Rightarrow> (Inl e, about_to_modify_dtor make_stack_copy s1, h2)
           | (Inr u, h2) \<Rightarrow>
               (Inr (), about_to_modify_dtor (drop_roll_back make_stack_copy) s1, h2)))"

text \<open>
  A \<^verbatim>\<open>V&\<close> into the storage: the list object and the node whose value it refers to.  It
  is read and written in whatever store the caller has by then; a reference to a node
  that is gone dangles, and using it is undefined.
\<close>

record vref =
  ref_list :: nat
  ref_node :: iter

definition read_ref :: "vref \<Rightarrow> ('k, 'v) heap \<Rightarrow> error + 'v" where
  "read_ref r h =
     (case node_at (ref_node r) (main_cells h (ref_list r)) of
        None \<Rightarrow> Inl Undefined
      | Some kv \<Rightarrow> Inr (snd kv))"

definition write_ref :: "vref \<Rightarrow> 'v \<Rightarrow> ('k, 'v) heap \<Rightarrow> error + ('k, 'v) heap" where
  "write_ref r v h =
     (case node_at (ref_node r) (main_cells h (ref_list r)) of
        None \<Rightarrow> Inl Undefined
      | Some kv \<Rightarrow>
          Inr (set_main (ref_list r)
                 (map (\<lambda>e. if fst e = ref_node r then (fst e, fst (snd e), v) else e)
                    (main_cells h (ref_list r))) h))"

text \<open>
  \<^verbatim>\<open>front() const\<close> gives the key and the value it reads; the mutable \<^verbatim>\<open>front()\<close> gives
  the key (never written in place) and the reference to the value of the front node.
\<close>

definition front :: "stack \<Rightarrow> ('k, 'v) heap \<Rightarrow> error + 'k \<times> 'v" where
  "front s h =
     (if no_storage (main_stack s) \<or> deref_main s h = Some [] then
        Inl (fst (throw_invalid_argument EmptyContainer h))
      else
        (case deref_main s h of
           Some (e # es) \<Rightarrow> Inr (snd e)
         | _ \<Rightarrow> Inl Undefined))"

definition front_mut ::
  "nat \<Rightarrow> stack \<Rightarrow> stack list \<Rightarrow> ('k::linorder, 'v) heap
     \<Rightarrow> (error + 'k \<times> vref) \<times> stack \<times> ('k, 'v) heap" where
  "front_mut n s others h =
     (if no_storage (main_stack s) \<or> deref_main s h = Some [] then
        (case throw_invalid_argument EmptyContainer h of (e, h1) \<Rightarrow> (Inl e, s, h1))
      else
        (case about_to_modify (push n) s others False h of
           (Inl e, s1, h1) \<Rightarrow> (Inl e, s1, h1)
         | (Inr make_stack_copy, s1, h1) \<Rightarrow>
             (let s2 = about_to_modify_dtor (drop_roll_back make_stack_copy) s1 in
              case main_stack s2 of
                None \<Rightarrow> (Inl Undefined, s2, h1)
              | Some a \<Rightarrow>
                  (case main_cells h1 a of
                     [] \<Rightarrow> (Inl Undefined, s2, h1)
                   | e # es \<Rightarrow>
                       (Inr (fst (snd e), \<lparr>ref_list = a, ref_node = fst e\<rparr>), s2, h1)))))"

text \<open>
  The lookup of \<^verbatim>\<open>front(const K&)\<close>, its throw, and \<^verbatim>\<open>key->second.top()->second\<close>, the
  reference to the value of the node on top of the key's stack.
\<close>

definition key_top ::
  "'k::linorder \<Rightarrow> stack \<Rightarrow> ('k, 'v) heap \<Rightarrow> (error + vref) \<times> ('k, 'v) heap" where
  "key_top k s h =
     (case (main_stack s, stacks_map s) of
        (Some a, Some b) \<Rightarrow>
          (case map_find k (map_cells h b) of
             None \<Rightarrow> (case throw_invalid_argument KeyNotFound h of (e, h1) \<Rightarrow> (Inl e, h1))
           | Some st \<Rightarrow>
               (case st of
                  [] \<Rightarrow> (case throw_invalid_argument KeyNotFound h of (e, h1) \<Rightarrow> (Inl e, h1))
                | tp # st' \<Rightarrow> (Inr \<lparr>ref_list = a, ref_node = tp\<rparr>, h)))
      | _ \<Rightarrow> (Inl Undefined, h))"

definition front_key_mut ::
  "nat \<Rightarrow> 'k::linorder \<Rightarrow> stack \<Rightarrow> stack list \<Rightarrow> ('k, 'v) heap
     \<Rightarrow> (error + vref) \<times> stack \<times> ('k, 'v) heap" where
  "front_key_mut n k s others h =
     (case about_to_modify (push n) s others False h of
        (Inl e, s1, h1) \<Rightarrow> (Inl e, s1, h1)
      | (Inr make_stack_copy, s1, h1) \<Rightarrow>
          (case alloc h1 of
             Inl e \<Rightarrow> (Inl e, about_to_modify_dtor make_stack_copy s1, h1)
           | Inr h2 \<Rightarrow>
               (case key_top k s1 h2 of
                  (Inl e, h3) \<Rightarrow> (Inl e, about_to_modify_dtor make_stack_copy s1, h3)
                | (Inr r, h3) \<Rightarrow>
                    (Inr r, about_to_modify_dtor (drop_roll_back make_stack_copy) s1, h3))))"

text \<open>\<^verbatim>\<open>front(const K&) const\<close>: the caller reads the value through the const reference.\<close>

definition front_key :: "'k::linorder \<Rightarrow> stack \<Rightarrow> ('k, 'v) heap \<Rightarrow> error + 'v" where
  "front_key k s h =
     (if no_storage (main_stack s) then Inl (fst (throw_invalid_argument KeyNotFound h))
      else
        (case alloc h of
           Inl e \<Rightarrow> Inl e
         | Inr h1 \<Rightarrow>
             (case key_top k s h1 of
                (Inl e, h2) \<Rightarrow> Inl e
              | (Inr r, h2) \<Rightarrow> read_ref r h2)))"

definition size_st :: "stack \<Rightarrow> ('k, 'v) heap \<Rightarrow> nat" where
  "size_st s h =
     (if no_storage (main_stack s) then 0
      else (case deref_main s h of None \<Rightarrow> 0 | Some xs \<Rightarrow> length xs))"

definition count_st :: "'k::linorder \<Rightarrow> stack \<Rightarrow> ('k, 'v) heap \<Rightarrow> error + nat" where
  "count_st k s h =
     (if no_storage (main_stack s) then Inr 0
      else
        (case alloc h of
           Inl e \<Rightarrow> Inl e
         | Inr h1 \<Rightarrow>
             (case deref_map s h1 of
                None \<Rightarrow> Inl Undefined
              | Some m \<Rightarrow> (case map_find k m of None \<Rightarrow> Inr 0 | Some st \<Rightarrow> Inr (length st)))))"

definition clear :: "stack \<Rightarrow> stack" where
  "clear s = s\<lparr>main_stack := None, stacks_map := None, shareable := True\<rparr>"

subsection \<open>Copy construction and key iteration\<close>

text \<open>\<^verbatim>\<open>stack(const stack& other)\<close>; \<open>others\<close> are the live stacks besides \<open>other\<close>.\<close>

definition stack_copy_ctor ::
  "nat \<Rightarrow> stack \<Rightarrow> stack list \<Rightarrow> ('k::linorder, 'v) heap \<Rightarrow> (error + stack) \<times> ('k, 'v) heap" where
  "stack_copy_ctor n other others h =
     (if shareable other then
        (Inr \<lparr>main_stack = main_stack other, stacks_map = stacks_map other, shareable = True\<rparr>, h)
      else
        (case make_shared_main h of
           Inl e \<Rightarrow> (Inl e, h)
         | Inr (a, h1) \<Rightarrow>
             (case make_shared_map h1 of
                Inl e \<Rightarrow> (Inl e, h1)
              | Inr (b, h2) \<Rightarrow>
                  (case copy (push n) other
                          \<lparr>main_stack = Some a, stacks_map = Some b, shareable = True\<rparr>
                          (other # others) h2 of
                     (Inl e, self, h3) \<Rightarrow> (Inl e, h3)
                   | (Inr u, self, h3) \<Rightarrow> (Inr self, h3)))))"

text \<open>
  A \<^verbatim>\<open>const_iterator\<close> wraps a map iterator: the entries from its position to the end.
  The value-initialised iterator and \<^verbatim>\<open>cend()\<close> are both the empty rest.
\<close>

type_synonym 'k const_iterator = "'k stacks_map_t"

definition cbegin :: "stack \<Rightarrow> ('k, 'v) heap \<Rightarrow> 'k const_iterator" where
  "cbegin s h =
     (if no_storage (stacks_map s) then []
      else (case deref_map s h of None \<Rightarrow> [] | Some m \<Rightarrow> m))"

definition cend :: "stack \<Rightarrow> ('k, 'v) heap \<Rightarrow> 'k const_iterator" where
  "cend s h = []"

text \<open>\<^verbatim>\<open>for (it = first; it != last; ++it)\<close> collecting \<^verbatim>\<open>*it\<close>; \<open>lst\<close> is \<^verbatim>\<open>last\<close>.\<close>

primrec iterate :: "'k const_iterator \<Rightarrow> 'k const_iterator \<Rightarrow> 'k list" where
  "iterate [] lst = []"
| "iterate (e # es) lst = (if e # es = lst then [] else fst e # iterate es lst)"

definition keys :: "stack \<Rightarrow> ('k, 'v) heap \<Rightarrow> 'k list" where
  "keys s h = iterate (cbegin s h) (cend s h)"

subsection \<open>What a caller observes\<close>

text \<open>
  The observers are read with a fault plan of their own, here the empty one: whether
  \<^verbatim>\<open>count\<close> can allocate its temporary key, or \<^verbatim>\<open>front\<close> the message of its exception, is
  not part of the state of the container.
\<close>

definition no_faults :: "('k, 'v) heap \<Rightarrow> ('k, 'v) heap" where
  "no_faults h = h\<lparr>faults := None\<rparr>"

definition observe ::
  "stack \<Rightarrow> ('k::linorder, 'v) heap
     \<Rightarrow> nat \<times> (error + 'k \<times> 'v) \<times> 'k list \<times> ('k \<Rightarrow> error + nat) \<times> ('k \<Rightarrow> error + 'v)" where
  "observe s h =
     (size_st s h, front s (no_faults h), keys s h,
      (\<lambda>k. count_st k s (no_faults h)), (\<lambda>k. front_key k s (no_faults h)))"

text \<open>The empty store.\<close>

definition empty_heap :: "('k, 'v) heap" where
  "empty_heap = \<lparr>main_cells = (\<lambda>a. []), map_cells = (\<lambda>b. []), next_addr = 0, faults = None\<rparr>"

subsection \<open>Sequences of mutating operations\<close>

datatype ('k, 'v) mutation = Push 'k 'v | Pop | PopKey 'k

definition mutate ::
  "nat \<Rightarrow> ('k::linorder, 'v) mutation \<Rightarrow> stack \<Rightarrow> stack list \<Rightarrow> ('k, 'v) heap
     \<Rightarrow> (error + unit) \<times> stack \<times> ('k, 'v) heap" where
  "mutate n m s others h =
     (case m of
        Push k v \<Rightarrow> push n k v s others h
      | Pop \<Rightarrow> pop n s others h
      | PopKey k \<Rightarrow> pop_key n k s others h)"

text \<open>A caller that runs the operations in turn and catches what each one throws.\<close>

primrec mutate_all ::
  "nat \<Rightarrow> ('k::linorder, 'v) mutation list \<Rightarrow> stack \<Rightarrow> stack list \<Rightarrow> ('k, 'v) heap
     \<Rightarrow> (error + unit) list \<times> stack \<times> ('k, 'v) heap" where
  "mutate_all n [] s others h = ([], s, h)"
| "mutate_all n (m # ms) s others h =
     (case mutate n m s others h of
        (r, s1, h1) \<Rightarrow>
          (case mutate_all n ms s1 others h1 of (rs, s2, h2) \<Rightarrow> (r # rs, s2, h2)))"

subsection \<open>The invariant and the abstract contents\<close>

text \<open>
  The positions of the entries that carry key \<open>k\<close>, most recent first, and the
  cross-structure invariant between a list and its map: node identities are distinct, the
  map is strictly ascending in its keys, the positions reachable from the map are the
  nodes of the list with the same multiplicity, a key is in the map exactly when an entry
  carries it, and each key's stack is that key's positions, most recent first.
\<close>

definition key_ids :: "'k \<Rightarrow> ('k, 'v) main_stack_t \<Rightarrow> iter list" where
  "key_ids k xs = map fst (filter (\<lambda>e. fst (snd e) = k) xs)"

definition cross_inv :: "('k::linorder, 'v) main_stack_t \<Rightarrow> 'k stacks_map_t \<Rightarrow> bool" where
  "cross_inv xs m \<longleftrightarrow>
     distinct (map fst xs) \<and> sorted_wrt (<) (map fst m) \<and>
     mset (concat (map snd m)) = mset (map fst xs) \<and>
     (\<forall>k. (k \<in> fst ` set m) = (\<exists>e\<in>set xs. fst (snd e) = k)) \<and>
     (\<forall>e\<in>set m. snd e = key_ids (fst e) xs)"

text \<open>
  A stack object is well formed in a store when it has no storage at all, or a list and
  the map allocated right after it that satisfy the invariant, or (after a failed
  allocation inside the guard) an empty list and no map.  \<open>consistent\<close> excludes the last
  case.
\<close>

definition stack_ok :: "('k::linorder, 'v) heap \<Rightarrow> stack \<Rightarrow> bool" where
  "stack_ok h s =
     (case main_stack s of
        None \<Rightarrow> stacks_map s = None
      | Some a \<Rightarrow>
          a < next_addr h \<and>
          (case stacks_map s of
             None \<Rightarrow> main_cells h a = []
           | Some b \<Rightarrow> b = Suc a \<and> b < next_addr h \<and> cross_inv (main_cells h a) (map_cells h b)))"

definition all_ok :: "('k::linorder, 'v) heap \<Rightarrow> stack list \<Rightarrow> bool" where
  "all_ok h others = (\<forall>x\<in>set others. stack_ok h x)"

definition consistent :: "stack \<Rightarrow> bool" where
  "consistent s = ((main_stack s = None) = (stacks_map s = None))"

text \<open>The entries of a stack, most recently pushed first.\<close>

definition contents :: "stack \<Rightarrow> ('k, 'v) heap \<Rightarrow> ('k \<times> 'v) list" where
  "contents s h = (case main_stack s of None \<Rightarrow> [] | Some a \<Rightarrow> map snd (main_cells h a))"

text \<open>What the operations do to the entries, and what they answer.\<close>

fun remove_first :: "'k \<Rightarrow> ('k \<times> 'v) list \<Rightarrow> ('k \<times> 'v) list" where
  "remove_first k [] = []"
| "remove_first k (e # es) = (if fst e = k then es else e # remove_first k es)"

definition abs_mutate :: "('k, 'v) mutation \<Rightarrow> ('k \<times> 'v) list \<Rightarrow> ('k \<times> 'v) list" where
  "abs_mutate m ys =
     (case m of Push k v \<Rightarrow> (k, v) # ys | Pop \<Rightarrow> tl ys | PopKey k \<Rightarrow> remove_first k ys)"

definition abs_result :: "('k, 'v) mutation \<Rightarrow> ('k \<times> 'v) list \<Rightarrow> error + unit" where
  "abs_result m ys =
     (case m of
        Push k v \<Rightarrow> Inr ()
      | Pop \<Rightarrow> (if ys = [] then Inl EmptyContainer else Inr ())
      | PopKey k \<Rightarrow> (if filter (\<lambda>e. fst e = k) ys = [] then Inl KeyNotFound else Inr ()))"

definition abs_observe ::
  "('k::linorder \<times> 'v) list
     \<Rightarrow> nat \<times> (error + 'k \<times> 'v) \<times> 'k list \<times> ('k \<Rightarrow> error + nat) \<times> ('k \<Rightarrow> error + 'v)" where
  "abs_observe ys =
     (length ys,
      (case ys of [] \<Rightarrow> Inl EmptyContainer | e # es \<Rightarrow> Inr e),
      sorted_list_of_set (fst ` set ys),
      (\<lambda>k. Inr (length (filter (\<lambda>e. fst e = k) ys))),
      (\<lambda>k. case filter (\<lambda>e. fst e = k) ys of [] \<Rightarrow> Inl KeyNotFound | e # es \<Rightarrow> Inr (snd e)))"

subsection \<open>Auxiliary notions of the proofs\<close>

definition index_of :: "('k, 'v) main_stack_t \<Rightarrow> 'k \<Rightarrow> key_stack_t option" where
  "index_of xs k = (if key_ids k xs = [] then None else Some (key_ids k xs))"

text \<open>The map after a push, a pop and a pop by key.\<close>

definition pushed_map :: "'k::linorder \<Rightarrow> iter \<Rightarrow> 'k stacks_map_t \<Rightarrow> 'k stacks_map_t" where
  "pushed_map k it m =
     map_modify k ((#) it) (case map_find k m of None \<Rightarrow> map_insert k m | Some st \<Rightarrow> m)"

definition popped_map :: "'k::linorder \<Rightarrow> 'k stacks_map_t \<Rightarrow> 'k stacks_map_t" where
  "popped_map k m =
     (if length (tl (the (map_find k m))) = 0 then map_erase k (map_modify k tl m)
      else map_modify k tl m)"

definition same_store :: "('k, 'v) heap \<Rightarrow> ('k, 'v) heap \<Rightarrow> bool" where
  "same_store h h' \<longleftrightarrow>
     main_cells h' = main_cells h \<and> map_cells h' = map_cells h \<and> next_addr h' = next_addr h"

text \<open>Nothing below the old allocation mark changes.\<close>

definition unchanged_below :: "('k, 'v) heap \<Rightarrow> ('k, 'v) heap \<Rightarrow> bool" where
  "unchanged_below h h' \<longleftrightarrow>
     next_addr h \<le> next_addr h' \<and>
     (\<forall>c<next_addr h. main_cells h' c = main_cells h c \<and> map_cells h' c = map_cells h c)"

definition guard_of :: "stack \<Rightarrow> atm_guard" where
  "guard_of s = \<lparr>old_main_stack = main_stack s, old_stacks_map = stacks_map s,
                 old_shareable = shareable s, roll_back = True\<rparr>"

definition atm_post ::
  "stack \<Rightarrow> stack list \<Rightarrow> bool \<Rightarrow> ('k::linorder, 'v) heap
     \<Rightarrow> (error + atm_guard) \<Rightarrow> stack \<Rightarrow> ('k, 'v) heap \<Rightarrow> bool" where
  "atm_post s others mark h r s1 h1 \<longleftrightarrow>
     unchanged_below h h1 \<and>
     (case r of
        Inl e \<Rightarrow>
          e = BadAlloc \<and> faults h \<noteq> None \<and>
          (s1 = s \<or>
           (main_stack s = None \<and> s1 = s\<lparr>main_stack := Some (next_addr h)\<rparr> \<and>
            main_cells h1 (next_addr h) = [] \<and> next_addr h1 = Suc (next_addr h)))
      | Inr g \<Rightarrow>
          g = guard_of s \<and> shareable s1 = mark \<and> stack_ok h1 s1 \<and>
          contents s1 h1 = contents s h \<and> (faults h = None \<longrightarrow> faults h1 = None) \<and>
          (\<exists>a1. main_stack s1 = Some a1 \<and> (\<forall>x\<in>set others. main_stack x \<noteq> Some a1) \<and>
             ((s1 = s\<lparr>shareable := mark\<rparr> \<and> h1 = h) \<or>
              (next_addr h \<le> a1 \<and> stacks_map s1 = Some (Suc a1)))))"

definition frame_others :: "stack list \<Rightarrow> ('k::linorder, 'v) heap \<Rightarrow> ('k, 'v) heap \<Rightarrow> bool" where
  "frame_others others h h' \<longleftrightarrow>
     (\<forall>x\<in>set others. stack_ok h x \<longrightarrow>
        stack_ok h' x \<and> deref_main x h' = deref_main x h \<and> deref_map x h' = deref_map x h)"

definition mutate_post ::
  "('k::linorder, 'v) mutation \<Rightarrow> stack \<Rightarrow> stack list \<Rightarrow> ('k, 'v) heap
     \<Rightarrow> (error + unit) \<Rightarrow> stack \<Rightarrow> ('k, 'v) heap \<Rightarrow> bool" where
  "mutate_post m s others h r s' h' \<longleftrightarrow>
     stack_ok h' s' \<and> next_addr h \<le> next_addr h' \<and> frame_others others h h' \<and>
     (faults h = None \<longrightarrow> faults h' = None) \<and>
     (case r of
        Inr u \<Rightarrow>
          abs_result m (contents s h) = Inr () \<and>
          contents s' h' = abs_mutate m (contents s h) \<and> consistent s'
      | Inl e \<Rightarrow>
          contents s' h' = contents s h \<and>
          ((s' = s \<and> unchanged_below h h') \<or>
           (e = BadAlloc \<and> main_stack s = None \<and> s' = s\<lparr>main_stack := Some (next_addr h)\<rparr>)) \<and>
          (abs_result m (contents s h) = Inl e \<or> e = BadAlloc \<and> faults h \<noteq> None \<or>
           e = Undefined \<and> \<not> consistent s))"

definition rolled_back :: "stack \<Rightarrow> ('k, 'v) heap \<Rightarrow> error \<Rightarrow> stack \<Rightarrow> ('k, 'v) heap \<Rightarrow> bool" where
  "rolled_back s h e s' h' \<longleftrightarrow>
     (s' = s \<and> unchanged_below h h') \<or>
     (e = BadAlloc \<and> main_stack s = None \<and> s' = s\<lparr>main_stack := Some (next_addr h)\<rparr>)"

definition kept ::
  "stack \<Rightarrow> stack list \<Rightarrow> ('k::linorder, 'v) heap \<Rightarrow> stack \<Rightarrow> ('k, 'v) heap \<Rightarrow> bool" where
  "kept s others h s' h' \<longleftrightarrow>
     stack_ok h' s' \<and> next_addr h \<le> next_addr h' \<and> frame_others others h h' \<and>
     contents s' h' = contents s h \<and> (faults h = None \<longrightarrow> faults h' = None)"

primrec live_after :: "('k, 'v) mutation list \<Rightarrow> ('k \<times> 'v) list \<Rightarrow> ('k \<times> 'v) list" where
  "live_after [] ys = ys"
| "live_after (m # ms) ys = live_after ms (abs_mutate m ys)"

primrec abs_results :: "('k, 'v) mutation list \<Rightarrow> ('k \<times> 'v) list \<Rightarrow> (error + unit) list" where
  "abs_results [] ys = []"
| "abs_results (m # ms) ys = abs_result m ys # abs_results ms (abs_mutate m ys)"

definition is_push :: "('k, 'v) mutation \<Rightarrow> bool" where
  "is_push m = (case m of Push k v \<Rightarrow> True | Pop \<Rightarrow> False | PopKey k \<Rightarrow> False)"

definition pushes :: "('k, 'v) mutation list \<Rightarrow> nat" where
  "pushes ms = length (filter is_push ms)"

definition successful_pops :: "('k, 'v) mutation list \<Rightarrow> (error + unit) list \<Rightarrow> nat" where
  "successful_pops ms rs = length (filter (\<lambda>mr. \<not> is_push (fst mr) \<and> snd mr = Inr ()) (zip ms rs))"

definition fresh :: stack where
  "fresh = \<lparr>main_stack = Some 0, stacks_map = Some 1, shareable = True\<rparr>"

definition fresh_heap :: "('k, 'v) heap" where
  "fresh_heap = \<lparr>main_cells = (\<lambda>a. []), map_cells = (\<lambda>b. []), next_addr = 2, faults = None\<rparr>"

text \<open>The private \<^verbatim>\<open>swap\<close>, the move constructor and \<^verbatim>\<open>operator=\<close> on its by-value argument.\<close>

definition swap_st :: "stack \<Rightarrow> stack \<Rightarrow> stack \<times> stack" where
  "swap_st s other =
     (s\<lparr>stacks_map := stacks_map other, main_stack := main_stack other, shareable := shareable other\<rparr>,
      other\<lparr>stacks_map := stacks_map s, main_stack := main_stack s, shareable := shareable s\<rparr>)"

definition stack_move_ctor :: "stack \<Rightarrow> stack \<times> stack" where
  "stack_move_ctor other =
     (\<lparr>main_stack = main_stack other, stacks_map = stacks_map other, shareable = shareable other\<rparr>,
      other\<lparr>main_stack := None, stacks_map := None\<rparr>)"

definition assign :: "stack \<Rightarrow> stack \<Rightarrow> stack" where
  "assign s other = fst (swap_st s other)"

text \<open>
  What a caller can do to a stack \<open>s\<close>, with a second stack \<open>partner\<close> at hand, that
  changes the stack or what it stores: call \<^verbatim>\<open>push\<close>, \<^verbatim>\<open>pop()\<close> or \<^verbatim>\<open>pop(k)\<close>; call the
  mutable \<^verbatim>\<open>front()\<close> or \<^verbatim>\<open>front(k)\<close> and keep the reference it returns; call \<^verbatim>\<open>clear()\<close>;
  assign the partner to it (\<^verbatim>\<open>s = partner\<close>); or write a value through the reference it
  keeps.  The caller keeps the reference of the latest successful mutable \<^verbatim>\<open>front\<close> call
  and drops it as soon as a \<^verbatim>\<open>push\<close>, \<^verbatim>\<open>pop\<close>, \<^verbatim>\<open>pop(k)\<close>, \<^verbatim>\<open>clear\<close> or assignment on the stack
  succeeds; a call that throws leaves the stack as it was, and the reference is kept.  A
  write with no reference kept does nothing.
\<close>

datatype ('k, 'v) change =
    Mutate "('k, 'v) mutation" | CallFront | CallFrontKey 'k | CallClear | AssignFrom
  | WriteRef 'v

definition apply_change ::
  "nat \<Rightarrow> ('k::linorder, 'v) change \<Rightarrow> stack \<times> vref option \<Rightarrow> stack \<Rightarrow> stack list
     \<Rightarrow> ('k, 'v) heap \<Rightarrow> (stack \<times> vref option) \<times> ('k, 'v) heap" where
  "apply_change n c sr partner others h =
     (case c of
        Mutate m \<Rightarrow>
          (case mutate n m (fst sr) (partner # others) h of
             (Inl e, s', h') \<Rightarrow> ((s', snd sr), h')
           | (Inr u, s', h') \<Rightarrow> ((s', None), h'))
      | CallFront \<Rightarrow>
          (case front_mut n (fst sr) (partner # others) h of
             (Inl e, s', h') \<Rightarrow> ((s', snd sr), h')
           | (Inr kr, s', h') \<Rightarrow> ((s', Some (snd kr)), h'))
      | CallFrontKey k \<Rightarrow>
          (case front_key_mut n k (fst sr) (partner # others) h of
             (Inl e, s', h') \<Rightarrow> ((s', snd sr), h')
           | (Inr r, s', h') \<Rightarrow> ((s', Some r), h'))
      | CallClear \<Rightarrow> ((clear (fst sr), None), h)
      | AssignFrom \<Rightarrow>
          (case stack_copy_ctor n partner (fst sr # others) h of
             (Inl e, h') \<Rightarrow> (sr, h')
           | (Inr t, h') \<Rightarrow> ((assign (fst sr) t, None), h'))
      | WriteRef v \<Rightarrow>
          (case snd sr of
             None \<Rightarrow> (sr, h)
           | Some r \<Rightarrow> (case write_ref r v h of Inl e \<Rightarrow> (sr, h) | Inr h' \<Rightarrow> (sr, h'))))"

text \<open>Changes to two stacks in any order: \<open>True\<close> marks a change to \<open>A\<close>, \<open>False\<close> to \<open>B\<close>.\<close>

primrec interleaved ::
  "nat \<Rightarrow> (bool \<times> ('k::linorder, 'v) change) list \<Rightarrow> stack \<times> vref option
     \<Rightarrow> stack \<times> vref option \<Rightarrow> stack list \<Rightarrow> ('k, 'v) heap
     \<Rightarrow> (stack \<times> vref option) \<times> (stack \<times> vref option) \<times> ('k, 'v) heap" where
  "interleaved n [] A B others h = (A, B, h)"
| "interleaved n (op # ops) A B others h =
     (if fst op then
        (case apply_change n (snd op) A (fst B) others h of
           (A1, h1) \<Rightarrow> interleaved n ops A1 B others h1)
      else
        (case apply_change n (snd op) B (fst A) others h of
           (B1, h1) \<Rightarrow> interleaved n ops A B1 others h1))"

text \<open>
  The reference kept for a stack is current: it points into the list the stack holds, the
  stack is marked unshareable, and none of the stacks \<open>xs\<close> holds that list.
\<close>

definition ref_ok :: "stack \<times> vref option \<Rightarrow> stack list \<Rightarrow> bool" where
  "ref_ok sr xs =
     (case snd sr of
        None \<Rightarrow> True
      | Some r \<Rightarrow>
          main_stack (fst sr) = Some (ref_list r) \<and> \<not> shareable (fst sr) \<and>
          (\<forall>x\<in>set xs. main_stack x \<noteq> Some (ref_list r)))"

text \<open>
  The public operations, each applied to the stack \<open>s\<close> among the live stacks
  \<open>s # others\<close>.  The result is what the call throws, if anything, the live stacks after
  the call (a constructor adds one in front) and the store.  \<open>OpAssign i\<close> is
  \<^verbatim>\<open>s = others[i]\<close>: the argument is copy-constructed, then swapped in.
\<close>

datatype ('k, 'v) public_op =
    OpPush 'k 'v | OpPop | OpPopKey 'k | OpFront | OpFrontConst | OpFrontKey 'k
  | OpFrontKeyConst 'k | OpSize | OpCount 'k | OpKeys | OpClear | OpNew | OpCopy | OpMove
  | OpAssign nat

definition discard :: "error + 'a \<Rightarrow> error + unit" where
  "discard r = (case r of Inl e \<Rightarrow> Inl e | Inr x \<Rightarrow> Inr ())"

definition perform ::
  "nat \<Rightarrow> ('k::linorder, 'v) public_op \<Rightarrow> stack \<Rightarrow> stack list \<Rightarrow> ('k, 'v) heap
     \<Rightarrow> (error + unit) \<times> stack list \<times> ('k, 'v) heap" where
  "perform n op s others h =
     (case op of
        OpPush k v \<Rightarrow> (case push n k v s others h of (r, s', h') \<Rightarrow> (r, s' # others, h'))
      | OpPop \<Rightarrow> (case pop n s others h of (r, s', h') \<Rightarrow> (r, s' # others, h'))
      | OpPopKey k \<Rightarrow> (case pop_key n k s others h of (r, s', h') \<Rightarrow> (r, s' # others, h'))
      | OpFront \<Rightarrow>
          (case front_mut n s others h of (r, s', h') \<Rightarrow> (discard r, s' # others, h'))
      | OpFrontConst \<Rightarrow> (discard (front s h), s # others, h)
      | OpFrontKey k \<Rightarrow>
          (case front_key_mut n k s others h of (r, s', h') \<Rightarrow> (discard r, s' # others, h'))
      | OpFrontKeyConst k \<Rightarrow> (discard (front_key k s h), s # others, h)
      | OpSize \<Rightarrow> (discard (Inr (size_st s h)), s # others, h)
      | OpCount k \<Rightarrow> (discard (count_st k s h), s # others, h)
      | OpKeys \<Rightarrow> (discard (Inr (keys s h)), s # others, h)
      | OpClear \<Rightarrow> (Inr (), clear s # others, h)
      | OpNew \<Rightarrow>
          (case stack_ctor h of
             (Inl e, h') \<Rightarrow> (Inl e, s # others, h')
           | (Inr t, h') \<Rightarrow> (Inr (), t # s # others, h'))
      | OpCopy \<Rightarrow>
          (case stack_copy_ctor n s others h of
             (Inl e, h') \<Rightarrow> (Inl e, s # others, h')
           | (Inr t, h') \<Rightarrow> (Inr (), t # s # others, h'))
      | OpMove \<Rightarrow> (case stack_move_ctor s of (t, s') \<Rightarrow> (Inr (), t # s' # others, h))
      | OpAssign i \<Rightarrow>
          (if i < length others then
             (case stack_copy_ctor n (others ! i) (s # take i others @ drop (Suc i) others) h of
                (Inl e, h') \<Rightarrow> (Inl e, s # others, h')
              | (Inr t, h') \<Rightarrow> (Inr (), assign s t # others, h'))
           else (Inr (), s # others, h)))"

text \<open>
  A caller's program over the live stacks: each step names a live stack by its position
  and a public operation to call on it; the other live stacks are the rest of the list.  A
  step that names no live stack is skipped.
\<close>

primrec perform_all ::
  "nat \<Rightarrow> (nat \<times> ('k::linorder, 'v) public_op) list \<Rightarrow> stack list \<Rightarrow> ('k, 'v) heap
     \<Rightarrow> stack list \<times> ('k, 'v) heap" where
  "perform_all n [] ss h = (ss, h)"
| "perform_all n (step # steps) ss h =
     (if fst step < length ss then
        (case perform n (snd step) (ss ! fst step)
                (take (fst step) ss @ drop (Suc (fst step)) ss) h of
           (r, ss1, h1) \<Rightarrow> perform_all n steps ss1 h1)
      else perform_all n steps ss h)"

definition invariant_holds :: "('k::linorder, 'v) heap \<Rightarrow> stack list \<Rightarrow> bool" where
  "invariant_holds h ss =
     (\<forall>x\<in>set ss. \<forall>a b. main_stack x = Some a \<and> stacks_map x = Some b \<longrightarrow>
        cross_inv (main_cells h a) (map_cells h b))"

definition needs_entries :: "('k, 'v) public_op \<Rightarrow> bool" where
  "needs_entries op = (op = OpPop \<or> op = OpFront \<or> op = OpFrontConst)"

definition needs_key :: "('k, 'v) public_op \<Rightarrow> 'k \<Rightarrow> bool" where
  "needs_key op k = (op = OpPopKey k \<or> op = OpFrontKey k \<or> op = OpFrontKeyConst k)"

text \<open>
  A caller that, up to \<open>i\<close> times, calls the mutable \<^verbatim>\<open>front(k)\<close>, reads the value through
  the reference it returns and then calls \<^verbatim>\<open>pop(k)\<close>, stopping when \<^verbatim>\<open>front(k)\<close> throws; it
  collects the values read.
\<close>

primrec drain_key ::
  "nat \<Rightarrow> nat \<Rightarrow> 'k::linorder \<Rightarrow> stack \<Rightarrow> stack list \<Rightarrow> ('k, 'v) heap
     \<Rightarrow> 'v list \<times> stack \<times> ('k, 'v) heap" where
  "drain_key n 0 k s others h = ([], s, h)"
| "drain_key n (Suc i) k s others h =
     (case front_key_mut n k s others h of
        (Inl e, s1, h1) \<Rightarrow> ([], s1, h1)
      | (Inr ref, s1, h1) \<Rightarrow>
          (case read_ref ref h1 of
             Inl e \<Rightarrow> ([], s1, h1)
           | Inr v \<Rightarrow>
               (case pop_key n k s1 others h1 of
                  (r, s2, h2) \<Rightarrow>
                    (case drain_key n i k s2 others h2 of
                       (vs, s3, h3) \<Rightarrow> (v # vs, s3, h3)))))"

section \<open>Properties\<close>

subsection \<open>The containers and the invariant\<close>

lemma key_equiv_eq [simp]: "key_equiv a b \<longleftrightarrow> a = b"
  by (auto simp: key_equiv_def KComp_def)

lemma no_storage_iff [simp]: "no_storage p \<longleftrightarrow> p = None"
  by (cases p) (simp_all add: no_storage_def use_count_def)

lemma shared_iff:
  "2 < use_count (Some a) (Some a # Some a # map main_stack others)
     \<longleftrightarrow> (\<exists>t\<in>set others. main_stack t = Some a)"
  by (auto simp: use_count_def filter_empty_conv length_greater_0_conv[symmetric] simp del: length_greater_0_conv)

lemma map_find_Some_mem: "map_find k m = Some st \<Longrightarrow> (k, st) \<in> set m"
  by (induction m) (auto split: if_splits)

lemma map_find_None_iff: "map_find k m = None \<longleftrightarrow> k \<notin> fst ` set m"
  by (induction m) auto

lemma map_find_distinct: "distinct (map fst m) \<Longrightarrow> (k, st) \<in> set m \<Longrightarrow> map_find k m = Some st"
  by (induction m) (auto simp: rev_image_eqI)

lemma map_find_modify:
  "map_find k' (map_modify k f m) = (if k' = k then map_option f (map_find k m) else map_find k' m)"
  by (induction m) (auto simp: map_modify_def)

lemma map_fst_modify [simp]: "map fst (map_modify k f m) = map fst m"
  by (induction m) (auto simp: map_modify_def)

lemma map_find_insert:
  "map_find k m = None \<Longrightarrow> map_find k' (map_insert k m) = (if k' = k then Some [] else map_find k' m)"
  by (induction m) (auto simp: KComp_def split: if_splits)

lemma set_map_insert: "map_find k m = None \<Longrightarrow> fst ` set (map_insert k m) = insert k (fst ` set m)"
  by (induction m) (auto simp: KComp_def split: if_splits)

lemma set_map_insert_sub: "set (map_insert k m) \<subseteq> insert (k, []) (set m)"
  by (induction m) auto

lemma sorted_map_insert:
  "sorted_wrt (<) (map fst m) \<Longrightarrow> map_find k m = None \<Longrightarrow> sorted_wrt (<) (map fst (map_insert k m))"
proof (induction m)
  case Nil then show ?case by simp
next
  case (Cons e m)
  then have k: "k \<noteq> fst e" and f: "map_find k m = None" by (auto split: if_splits)
  show ?case
  proof (cases "k < fst e")
    case True
    with Cons.prems show ?thesis by (auto simp: KComp_def)
  next
    case False
    with k have lt: "fst e < k" by simp
    have "\<forall>x\<in>set (map_insert k m). fst e < fst x"
      using Cons.prems(1) lt set_map_insert_sub[of k m] by auto
    with Cons False lt f show ?thesis by (auto simp: KComp_def)
  qed
qed

lemma map_find_erase: "map_find k' (map_erase k m) = (if k' = k then None else map_find k' m)"
  by (induction m) (auto simp: map_erase_def)

lemma sorted_map_erase: "sorted_wrt (<) (map fst m) \<Longrightarrow> sorted_wrt (<) (map fst (map_erase k m))"
  by (induction m) (auto simp: map_erase_def)

lemma map_erase_absent: "map_find k m = None \<Longrightarrow> map_erase k m = m"
  by (induction m) (auto simp: map_erase_def split: if_splits)

lemma map_erase_insert: "map_find k m = None \<Longrightarrow> map_erase k (map_insert k m) = m"
proof (induction m)
  case Nil then show ?case by (simp add: map_erase_def)
next
  case (Cons e m)
  then have k: "k \<noteq> fst e" and f: "map_find k m = None" by (auto split: if_splits)
  from f have "map_erase k m = m" by (rule map_erase_absent)
  with Cons.IH[OF f] k show ?case by (auto simp: map_erase_def KComp_def)
qed

lemma map_modify_undo: "map_modify k tl (map_modify k ((#) it) m) = m"
  by (induction m) (auto simp: map_modify_def)

lemma new_iter_fresh: "e \<in> set xs \<Longrightarrow> fst e < new_iter xs"
  by (induction xs) auto

lemma new_iter_notin: "new_iter xs \<notin> fst ` set xs"
  using new_iter_fresh by fastforce

lemma key_ids_Nil_iff: "key_ids k xs = [] \<longleftrightarrow> (\<forall>e\<in>set xs. fst (snd e) \<noteq> k)"
  by (auto simp: key_ids_def filter_empty_conv)

lemma mset_split_keys:
  "k \<notin> set ks \<Longrightarrow>
   mset (map fst (filter (\<lambda>e. fst (snd e) = k \<or> fst (snd e) \<in> set ks) xs)) =
   mset (key_ids k xs) + mset (map fst (filter (\<lambda>e. fst (snd e) \<in> set ks) xs))"
  by (induction xs) (auto simp: key_ids_def)

lemma mset_concat_key_ids:
  "distinct ks \<Longrightarrow>
   mset (concat (map (\<lambda>k. key_ids k xs) ks)) =
   mset (map fst (filter (\<lambda>e. fst (snd e) \<in> set ks) xs))"
proof (induction ks)
  case Nil then show ?case by simp
next
  case (Cons k ks)
  then have "k \<notin> set ks" by simp
  from mset_split_keys[OF this, of xs] Cons show ?case by simp
qed

lemma cross_inv_intro:
  assumes d: "distinct (map fst xs)" and s: "sorted_wrt (<) (map fst m)"
    and f: "\<And>k. map_find k m = index_of xs k"
  shows "cross_inv xs m"
proof -
  have dk: "distinct (map fst m)" using s by (simp add: strict_sorted_iff)
  have c: "\<forall>e\<in>set m. snd e = key_ids (fst e) xs"
  proof
    fix e assume "e \<in> set m"
    then have "(fst e, snd e) \<in> set m" by simp
    from map_find_distinct[OF dk this] f[of "fst e"] show "snd e = key_ids (fst e) xs"
      by (simp add: index_of_def split: if_splits)
  qed
  have b: "\<forall>k. (k \<in> fst ` set m) = (\<exists>e\<in>set xs. fst (snd e) = k)"
  proof
    fix k
    have "(k \<in> fst ` set m) = (map_find k m \<noteq> None)" by (simp add: map_find_None_iff)
    also have "\<dots> = (key_ids k xs \<noteq> [])" by (simp add: f index_of_def)
    also have "\<dots> = (\<exists>e\<in>set xs. fst (snd e) = k)" by (simp add: key_ids_Nil_iff)
    finally show "(k \<in> fst ` set m) = (\<exists>e\<in>set xs. fst (snd e) = k)" .
  qed
  have ms: "map snd m = map (\<lambda>k. key_ids k xs) (map fst m)" using c by simp
  have "mset (concat (map snd m)) = mset (map fst (filter (\<lambda>e. fst (snd e) \<in> set (map fst m)) xs))"
    by (subst ms) (rule mset_concat_key_ids[OF dk])
  also have "filter (\<lambda>e. fst (snd e) \<in> set (map fst m)) xs = xs"
    using b by (auto simp: filter_id_conv)
  finally have a: "mset (concat (map snd m)) = mset (map fst xs)" .
  from d s a b c show ?thesis by (simp add: cross_inv_def)
qed

lemma cross_inv_find:
  assumes "cross_inv xs m"
  shows "map_find k m = index_of xs k"
proof (cases "map_find k m")
  case None
  then have "k \<notin> fst ` set m" by (simp add: map_find_None_iff)
  with assms have "\<forall>e\<in>set xs. fst (snd e) \<noteq> k" by (auto simp: cross_inv_def)
  with None show ?thesis by (simp add: index_of_def key_ids_Nil_iff)
next
  case (Some st)
  then have mem: "(k, st) \<in> set m" by (rule map_find_Some_mem)
  with assms have st: "st = key_ids k xs" by (auto simp: cross_inv_def)
  from mem have "k \<in> fst ` set m" by force
  with assms have "\<exists>e\<in>set xs. fst (snd e) = k" by (simp add: cross_inv_def)
  then have "key_ids k xs \<noteq> []" by (simp add: key_ids_Nil_iff)
  with Some st show ?thesis by (simp add: index_of_def)
qed

lemma cross_inv_distinct: "cross_inv xs m \<Longrightarrow> distinct (map fst xs)"
  by (simp add: cross_inv_def)

lemma cross_inv_sorted: "cross_inv xs m \<Longrightarrow> sorted_wrt (<) (map fst m)"
  by (simp add: cross_inv_def)

lemma cross_inv_empty [simp]: "cross_inv [] []"
  by (simp add: cross_inv_def)

lemma cross_inv_Nil_map: "cross_inv [] m \<Longrightarrow> m = []"
  by (cases m) (auto simp: cross_inv_def)

lemma key_ids_Cons:
  "key_ids k' (e # xs) = (if fst (snd e) = k' then fst e # key_ids k' xs else key_ids k' xs)"
  by (simp add: key_ids_def)

lemma cross_inv_push:
  assumes inv: "cross_inv xs m" and it: "it \<notin> fst ` set xs"
  shows "cross_inv ((it, k, v) # xs) (pushed_map k it m)"
proof (rule cross_inv_intro)
  show "distinct (map fst ((it, k, v) # xs))" using inv it by (simp add: cross_inv_def)
  show "sorted_wrt (<) (map fst (pushed_map k it m))"
    using cross_inv_sorted[OF inv]
    by (auto simp: pushed_map_def sorted_map_insert split: option.splits)
  fix k'
  show "map_find k' (pushed_map k it m) = index_of ((it, k, v) # xs) k'"
    using cross_inv_find[OF inv, of k] cross_inv_find[OF inv, of k']
    by (auto simp: pushed_map_def map_find_modify map_find_insert index_of_def key_ids_Cons
             split: option.splits if_splits)
qed

lemma cross_inv_pop:
  assumes inv: "cross_inv (e # es) m"
  shows "cross_inv es (popped_map (fst (snd e)) m)"
proof (rule cross_inv_intro)
  show "distinct (map fst es)" using inv by (simp add: cross_inv_def)
  show "sorted_wrt (<) (map fst (popped_map (fst (snd e)) m))"
    using cross_inv_sorted[OF inv] sorted_map_erase[of "map_modify (fst (snd e)) tl m"]
    by (auto simp: popped_map_def)
  fix k'
  show "map_find k' (popped_map (fst (snd e)) m) = index_of es k'"
    using cross_inv_find[OF inv, of "fst (snd e)"] cross_inv_find[OF inv, of k']
    by (auto simp: popped_map_def map_find_modify map_find_erase index_of_def key_ids_Cons
             split: option.splits if_splits)
qed

lemma key_ids_in: "i \<in> set (key_ids k xs) \<Longrightarrow> i \<in> fst ` set xs"
  by (auto simp: key_ids_def)

lemma key_ids_erase:
  "distinct (map fst xs) \<Longrightarrow> key_ids k xs = tp # st \<Longrightarrow>
   key_ids k' (list_erase tp xs) = (if k' = k then st else key_ids k' xs)"
proof (induction xs)
  case Nil then show ?case by (simp add: key_ids_def)
next
  case (Cons e xs)
  show ?case
  proof (cases "fst (snd e) = k")
    case True
    with Cons.prems have tp: "tp = fst e" and st: "st = key_ids k xs" by (simp_all add: key_ids_Cons)
    from Cons.prems(1) have "fst e \<notin> fst ` set xs" by simp
    then have "\<forall>x\<in>set xs. fst x \<noteq> tp" unfolding tp by (metis imageI)
    then have "list_erase tp xs = xs"
      by (simp add: list_erase_def filter_id_conv)
    with True tp st show ?thesis by (auto simp: list_erase_def key_ids_Cons)
  next
    case False
    with Cons.prems have k: "key_ids k xs = tp # st" by (simp add: key_ids_Cons)
    then have "tp \<in> fst ` set xs" using key_ids_in[of tp k xs] by simp
    with Cons.prems(1) have ne: "fst e \<noteq> tp" by auto
    from Cons.IH[OF _ k] Cons.prems(1) have "key_ids k' (list_erase tp xs) = (if k' = k then st else key_ids k' xs)"
      by simp
    with False ne show ?thesis by (auto simp: list_erase_def key_ids_Cons)
  qed
qed

lemma contents_erase:
  "distinct (map fst xs) \<Longrightarrow> key_ids k xs = tp # st \<Longrightarrow>
   map snd (list_erase tp xs) = remove_first k (map snd xs)"
proof (induction xs)
  case Nil then show ?case by (simp add: key_ids_def)
next
  case (Cons e xs)
  show ?case
  proof (cases "fst (snd e) = k")
    case True
    with Cons.prems have tp: "tp = fst e" by (simp add: key_ids_Cons)
    from Cons.prems(1) have "fst e \<notin> fst ` set xs" by simp
    then have "\<forall>x\<in>set xs. fst x \<noteq> tp" unfolding tp by (metis imageI)
    then have "list_erase tp xs = xs"
      by (simp add: list_erase_def filter_id_conv)
    with True tp show ?thesis by (auto simp: list_erase_def)
  next
    case False
    with Cons.prems have k: "key_ids k xs = tp # st" by (simp add: key_ids_Cons)
    then have "tp \<in> fst ` set xs" using key_ids_in[of tp k xs] by simp
    with Cons.prems(1) have ne: "fst e \<noteq> tp" by auto
    from Cons.IH[OF _ k] Cons.prems(1) have "map snd (list_erase tp xs) = remove_first k (map snd xs)"
      by simp
    with False ne show ?thesis by (auto simp: list_erase_def)
  qed
qed

lemma node_at_key_ids:
  "distinct (map fst xs) \<Longrightarrow> key_ids k xs = tp # st \<Longrightarrow>
   \<exists>v. node_at tp xs = Some (k, v) \<and> filter (\<lambda>e. fst e = k) (map snd xs) \<noteq> [] \<and>
       hd (filter (\<lambda>e. fst e = k) (map snd xs)) = (k, v)"
proof (induction xs)
  case Nil then show ?case by (simp add: key_ids_def)
next
  case (Cons e xs)
  show ?case
  proof (cases "fst (snd e) = k")
    case True
    with Cons.prems have tp: "tp = fst e" by (simp add: key_ids_Cons)
    with True show ?thesis by (cases e) auto
  next
    case False
    with Cons.prems have k: "key_ids k xs = tp # st" by (simp add: key_ids_Cons)
    then have "tp \<in> fst ` set xs" using key_ids_in[of tp k xs] by simp
    with Cons.prems(1) have ne: "fst e \<noteq> tp" by auto
    from Cons.IH[OF _ k] Cons.prems(1) False ne show ?thesis by auto
  qed
qed

lemma cross_inv_pop_key:
  assumes inv: "cross_inv xs m" and f: "map_find k m = Some (tp # st)"
  shows "cross_inv (list_erase tp xs) (popped_map k m)"
proof (rule cross_inv_intro)
  have d: "distinct (map fst xs)" using inv by (simp add: cross_inv_def)
  from cross_inv_find[OF inv, of k] f have ids: "key_ids k xs = tp # st"
    by (simp add: index_of_def split: if_splits)
  show "distinct (map fst (list_erase tp xs))" using d by (simp add: list_erase_def distinct_map_filter)
  show "sorted_wrt (<) (map fst (popped_map k m))"
    using cross_inv_sorted[OF inv] sorted_map_erase[of "map_modify k tl m"]
    by (auto simp: popped_map_def)
  fix k'
  show "map_find k' (popped_map k m) = index_of (list_erase tp xs) k'"
    using f cross_inv_find[OF inv, of k'] key_ids_erase[OF d ids, of k']
    by (auto simp: popped_map_def map_find_modify map_find_erase index_of_def
             split: option.splits if_splits)
qed

lemma same_store_refl [simp]: "same_store h h"
  by (simp add: same_store_def)

lemma same_store_trans: "same_store h h1 \<Longrightarrow> same_store h1 h2 \<Longrightarrow> same_store h h2"
  by (simp add: same_store_def)

lemma alloc_no_faults [simp]: "faults h = None \<Longrightarrow> alloc h = Inr h"
  by (simp add: alloc_def)

lemma alloc_Inl: "alloc h = Inl e \<Longrightarrow> e = BadAlloc \<and> faults h \<noteq> None"
  by (auto simp: alloc_def split: option.splits nat.splits)

lemma alloc_Inr:
  "alloc h = Inr h1 \<Longrightarrow> same_store h h1 \<and> (faults h = None \<longrightarrow> faults h1 = None)"
  by (auto simp: alloc_def same_store_def split: option.splits nat.splits)

lemma throw_no_faults [simp]: "faults h = None \<Longrightarrow> throw_invalid_argument e h = (e, h)"
  by (simp add: throw_invalid_argument_def)

lemma throw_cases:
  "case throw_invalid_argument e h of
     (e', h') \<Rightarrow> same_store h h' \<and> (faults h = None \<longrightarrow> faults h' = None) \<and>
                 (e' = e \<or> e' = BadAlloc \<and> faults h \<noteq> None)"
  by (simp add: throw_invalid_argument_def alloc_def same_store_def split: option.split nat.split)

lemma main_stack_guard_Inr:
  "main_stack_guard a k v h = Inr h2 \<Longrightarrow>
   main_cells h2 = (main_cells h)(a := (new_iter (main_cells h a), k, v) # main_cells h a) \<and>
   map_cells h2 = map_cells h \<and> next_addr h2 = next_addr h \<and>
   (faults h = None \<longrightarrow> faults h2 = None)"
  by (auto simp: main_stack_guard_def set_main_def same_store_def split: sum.splits dest!: alloc_Inr)

lemma stackmap_key_guard_Inr:
  "stackmap_key_guard b k h = Inr h2 \<Longrightarrow>
   main_cells h2 = main_cells h \<and>
   map_cells h2 = (map_cells h)(b := map_insert k (map_cells h b)) \<and> next_addr h2 = next_addr h \<and>
   (faults h = None \<longrightarrow> faults h2 = None)"
  by (auto simp: stackmap_key_guard_def set_map_def same_store_def split: sum.splits dest!: alloc_Inr)

lemma stackmap_push_guard_Inr:
  "stackmap_push_guard b k it h = Inr h2 \<Longrightarrow>
   main_cells h2 = main_cells h \<and>
   map_cells h2 = (map_cells h)(b := map_modify k ((#) it) (map_cells h b)) \<and>
   next_addr h2 = next_addr h \<and> (faults h = None \<longrightarrow> faults h2 = None)"
  by (auto simp: stackmap_push_guard_def set_map_def same_store_def split: sum.splits dest!: alloc_Inr)

lemma guard_no_faults [simp]:
  "faults h = None \<Longrightarrow> main_stack_guard a k v h \<noteq> Inl e"
  "faults h = None \<Longrightarrow> stackmap_key_guard b k h \<noteq> Inl e"
  "faults h = None \<Longrightarrow> stackmap_push_guard b k it h \<noteq> Inl e"
  by (simp_all add: main_stack_guard_def stackmap_key_guard_def stackmap_push_guard_def)

lemma guard_dtor_simps [simp]:
  "main_stack_guard_dtor False a h = h"
  "stackmap_key_guard_dtor False b k h = h"
  "stackmap_push_guard_dtor False b k h = h"
  "main_cells (main_stack_guard_dtor True a h) = (main_cells h)(a := tl (main_cells h a))"
  "map_cells (main_stack_guard_dtor True a h) = map_cells h"
  "next_addr (main_stack_guard_dtor True a h) = next_addr h"
  "main_cells (stackmap_key_guard_dtor True b k h) = main_cells h"
  "map_cells (stackmap_key_guard_dtor True b k h) = (map_cells h)(b := map_erase k (map_cells h b))"
  "next_addr (stackmap_key_guard_dtor True b k h) = next_addr h"
  by (simp_all add: main_stack_guard_dtor_def stackmap_key_guard_dtor_def
        stackmap_push_guard_dtor_def set_main_def set_map_def)

lemmas guard_defs = main_stack_guard_def main_stack_guard_dtor_def stackmap_key_guard_def
    stackmap_key_guard_dtor_def stackmap_push_guard_def stackmap_push_guard_dtor_def

lemma push_body_cases:
  assumes "main_stack s = Some a" and "stacks_map s = Some b"
  shows "case push_body k v s h of
           (Inl e, h') \<Rightarrow> same_store h h' \<and> faults h \<noteq> None \<and> e = BadAlloc
         | (Inr u, h') \<Rightarrow>
             main_cells h' = (main_cells h)(a := (new_iter (main_cells h a), k, v) # main_cells h a) \<and>
             map_cells h' = (map_cells h)(b := pushed_map k (new_iter (main_cells h a)) (map_cells h b)) \<and>
             next_addr h' = next_addr h \<and> (faults h = None \<longrightarrow> faults h' = None)"
  using assms
  by (simp add: push_body_def guard_defs alloc_def set_main_def set_map_def same_store_def
        pushed_map_def map_erase_insert map_modify_undo Let_def
        split: option.split nat.split)

lemma push_body_no_handles:
  assumes "main_stack s = None \<or> stacks_map s = None"
  shows "case push_body k v s h of
           (Inl e, h') \<Rightarrow> same_store h h' \<and> (e = BadAlloc \<or> e = Undefined) \<and>
                            (faults h = None \<longrightarrow> faults h' = None)
         | (Inr u, h') \<Rightarrow> False"
  using assms
  by (auto simp: push_body_def alloc_def same_store_def split: option.split nat.split)

lemma pop_body_ok:
  assumes "main_stack s = Some a" and "stacks_map s = Some b" and "main_cells h a = e # es"
    and "map_find (fst (snd e)) (map_cells h b) = Some (t # st)"
  shows "pop_body s h =
           Inr (h\<lparr>main_cells := (main_cells h)(a := es),
                  map_cells := (map_cells h)(b := popped_map (fst (snd e)) (map_cells h b))\<rparr>)"
  using assms
  by (simp add: pop_body_def popped_map_def set_main_def set_map_def Let_def)

lemma pop_body_Inl: "pop_body s h = Inl e \<Longrightarrow> e = Undefined"
  by (auto simp: pop_body_def Let_def split: option.splits list.splits if_splits)

lemma pop_key_body_cases:
  assumes "main_stack s = Some a" and "stacks_map s = Some b"
  shows "case pop_key_body k s h of
           (Inl e, h') \<Rightarrow>
             same_store h h' \<and> (faults h = None \<longrightarrow> faults h' = None) \<and>
             (e = BadAlloc \<and> faults h \<noteq> None \<or>
              e = KeyNotFound \<and> (map_find k (map_cells h b) = None \<or> map_find k (map_cells h b) = Some []) \<or>
              e = Undefined \<and> (\<exists>tp st. map_find k (map_cells h b) = Some (tp # st) \<and>
                                 node_at tp (main_cells h a) = None))
         | (Inr u, h') \<Rightarrow>
             (\<exists>tp st. map_find k (map_cells h b) = Some (tp # st) \<and>
                node_at tp (main_cells h a) \<noteq> None \<and>
                main_cells h' = (main_cells h)(a := list_erase tp (main_cells h a))) \<and>
             map_cells h' = (map_cells h)(b := popped_map k (map_cells h b)) \<and>
             next_addr h' = next_addr h \<and> (faults h = None \<longrightarrow> faults h' = None)"
  using assms
  by (simp add: pop_key_body_def throw_invalid_argument_def alloc_def set_main_def set_map_def
        same_store_def popped_map_def Let_def
        split: option.split nat.split list.split)

lemma pop_key_body_no_handles:
  assumes "main_stack s = None \<or> stacks_map s = None"
  shows "case pop_key_body k s h of
           (Inl e, h') \<Rightarrow> same_store h h' \<and> (e = BadAlloc \<or> e = Undefined) \<and>
                            (faults h = None \<longrightarrow> faults h' = None)
         | (Inr u, h') \<Rightarrow> False"
  using assms
  by (auto simp: pop_key_body_def throw_invalid_argument_def alloc_def same_store_def
        split: option.split nat.split)

lemma unchanged_below_refl [simp]: "unchanged_below h h"
  by (simp add: unchanged_below_def)

lemma same_store_unchanged: "same_store h h' \<Longrightarrow> unchanged_below h h'"
  by (simp add: same_store_def unchanged_below_def)

lemma unchanged_below_trans:
  "unchanged_below h h1 \<Longrightarrow> unchanged_below h1 h2 \<Longrightarrow> unchanged_below h h2"
  by (auto simp: unchanged_below_def)

lemma stack_eq_restore [simp]:
  "(s1::stack)\<lparr>main_stack := main_stack s, stacks_map := stacks_map s, shareable := shareable s\<rparr> = s"
  by simp

lemma make_shared_main_cases:
  "case make_shared_main h of
     Inl e \<Rightarrow> e = BadAlloc \<and> faults h \<noteq> None
   | Inr (a, h1) \<Rightarrow>
       a = next_addr h \<and> main_cells h1 = (main_cells h)(a := []) \<and> map_cells h1 = map_cells h \<and>
       next_addr h1 = Suc a \<and> (faults h = None \<longrightarrow> faults h1 = None)"
  by (simp add: make_shared_main_def alloc_def set_main_def split: option.split nat.split)

lemma make_shared_map_cases:
  "case make_shared_map h of
     Inl e \<Rightarrow> e = BadAlloc \<and> faults h \<noteq> None
   | Inr (b, h1) \<Rightarrow>
       b = next_addr h \<and> map_cells h1 = (map_cells h)(b := []) \<and> main_cells h1 = main_cells h \<and>
       next_addr h1 = Suc b \<and> (faults h = None \<longrightarrow> faults h1 = None)"
  by (simp add: make_shared_map_def alloc_def set_map_def split: option.split nat.split)

text \<open>Pushing onto a stack whose storage no other stack holds: no copy is made.\<close>

lemma push_private_cases:
  assumes "main_stack t = Some c" and "stacks_map t = Some b"
    and "\<forall>x\<in>set os. main_stack x \<noteq> Some c"
  shows "case push (Suc n) k v t os h of
           (Inl e, t', h') \<Rightarrow> t' = t \<and> same_store h h' \<and> faults h \<noteq> None \<and> e = BadAlloc
         | (Inr u, t', h') \<Rightarrow>
             t' = t\<lparr>shareable := True\<rparr> \<and>
             main_cells h' = (main_cells h)(c := (new_iter (main_cells h c), k, v) # main_cells h c) \<and>
             map_cells h' = (map_cells h)(b := pushed_map k (new_iter (main_cells h c)) (map_cells h b)) \<and>
             next_addr h' = next_addr h \<and> (faults h = None \<longrightarrow> faults h' = None)"
proof -
  have ns: "\<not> 2 < use_count (Some c) (Some c # Some c # map main_stack os)"
    using assms(3) by (simp add: shared_iff)
  have atm: "about_to_modify (push n) t os True h =
               (Inr \<lparr>old_main_stack = Some c, old_stacks_map = Some b,
                     old_shareable = shareable t, roll_back = True\<rparr>, t\<lparr>shareable := True\<rparr>, h)"
    using assms(1,2) ns by (simp add: about_to_modify_def Let_def)
  have m: "main_stack (t\<lparr>shareable := True\<rparr>) = Some c" "stacks_map (t\<lparr>shareable := True\<rparr>) = Some b"
    using assms by simp_all
  have r: "t\<lparr>shareable := True, main_stack := Some c, stacks_map := Some b, shareable := shareable t\<rparr> = t"
    using assms(1,2) by simp
  show ?thesis
    using push_body_cases[OF m, where k=k and v=v and h=h]
    by (auto simp: push_with_def atm about_to_modify_dtor_def drop_roll_back_def r
             split: sum.splits prod.splits)
qed

lemma stack_ctor_cases:
  "case stack_ctor h of
     (Inl e, h1) \<Rightarrow> e = BadAlloc \<and> faults h \<noteq> None \<and> unchanged_below h h1
   | (Inr new, h1) \<Rightarrow>
       new = \<lparr>main_stack = Some (next_addr h), stacks_map = Some (Suc (next_addr h)), shareable = True\<rparr> \<and>
       main_cells h1 = (main_cells h)(next_addr h := []) \<and>
       map_cells h1 = (map_cells h)(Suc (next_addr h) := []) \<and>
       next_addr h1 = Suc (Suc (next_addr h)) \<and> (faults h = None \<longrightarrow> faults h1 = None)"
  by (simp add: stack_ctor_def make_shared_main_def make_shared_map_def alloc_def set_main_def
        set_map_def unchanged_below_def split: option.split nat.split)

lemma copy_loop_private:
  assumes "copy_loop (push (Suc n)) es t os h = (r, t', h')"
    and "main_stack t = Some c" and "stacks_map t = Some b"
    and "\<forall>x\<in>set os. main_stack x \<noteq> Some c"
    and "cross_inv (main_cells h c) (map_cells h b)"
  shows "main_stack t' = Some c \<and> stacks_map t' = Some b \<and> next_addr h' = next_addr h \<and>
         (shareable t \<longrightarrow> shareable t') \<and>
         (\<forall>x. x \<noteq> c \<longrightarrow> main_cells h' x = main_cells h x) \<and>
         (\<forall>x. x \<noteq> b \<longrightarrow> map_cells h' x = map_cells h x) \<and>
         cross_inv (main_cells h' c) (map_cells h' b) \<and>
         (case r of
            Inl e \<Rightarrow> e = BadAlloc \<and> faults h \<noteq> None
          | Inr u \<Rightarrow> map snd (main_cells h' c) = rev (map snd es) @ map snd (main_cells h c) \<and>
                     (faults h = None \<longrightarrow> faults h' = None))"
  using assms
proof (induction es arbitrary: t h)
  case Nil
  then show ?case by auto
next
  case (Cons e es)
  obtain r1 t1 h1 where p: "push (Suc n) (fst (snd e)) (snd (snd e)) t os h = (r1, t1, h1)"
    by (cases "push (Suc n) (fst (snd e)) (snd (snd e)) t os h") auto
  note pc = push_private_cases[OF Cons.prems(2,3,4), where n=n and k="fst (snd e)"
      and v="snd (snd e)" and h=h]
  show ?case
  proof (cases r1)
    case (Inl err)
    with p pc have "t1 = t" "same_store h h1" "faults h \<noteq> None" "err = BadAlloc" by simp_all
    moreover from Cons.prems(1) p Inl have "r = Inl err" "t' = t1" "h' = h1" by simp_all
    ultimately show ?thesis using Cons.prems by (simp add: same_store_def)
  next
    case (Inr u)
    with p pc have t1: "t1 = t\<lparr>shareable := True\<rparr>"
      and mc: "main_cells h1 = (main_cells h)(c := (new_iter (main_cells h c), fst (snd e), snd (snd e)) # main_cells h c)"
      and pm: "map_cells h1 = (map_cells h)(b := pushed_map (fst (snd e)) (new_iter (main_cells h c)) (map_cells h b))"
      and na: "next_addr h1 = next_addr h" and fl: "faults h = None \<longrightarrow> faults h1 = None"
      by simp_all
    from Cons.prems(1) p Inr have rest: "copy_loop (push (Suc n)) es t1 os h1 = (r, t', h')" by simp
    have inv1: "cross_inv (main_cells h1 c) (map_cells h1 b)"
      using cross_inv_push[OF Cons.prems(5) new_iter_notin, where k="fst (snd e)" and v="snd (snd e)"]
      by (simp add: mc pm)
    have m1: "main_stack t1 = Some c" "stacks_map t1 = Some b" using t1 Cons.prems(2,3) by simp_all
    note ih = Cons.IH[OF rest m1 Cons.prems(4) inv1]
    show ?thesis
    proof (cases r)
      case (Inl err)
      with ih fl have "faults h \<noteq> None" by auto
      with ih Inl show ?thesis by (simp add: mc pm na t1)
    next
      case (Inr u')
      with ih fl show ?thesis by (simp add: mc pm na t1)
    qed
  qed
qed

lemma dtor_guard_of [simp]:
  "about_to_modify_dtor (guard_of s) s1 = s"
  "about_to_modify_dtor (drop_roll_back (guard_of s)) s1 = s1"
  by (simp_all add: about_to_modify_dtor_def guard_of_def drop_roll_back_def)

lemma about_to_modify_post:
  assumes atm: "about_to_modify (push (Suc n)) s others mark h = (r, s1, h1)"
    and ok: "stack_ok h s"
    and bound: "\<forall>x\<in>set others. \<forall>c. main_stack x = Some c \<longrightarrow> c < next_addr h"
  shows "atm_post s others mark h r s1 h1"
proof (cases "main_stack s")
  case None
  with ok have sm: "stacks_map s = None" by (simp add: stack_ok_def)
  have fresh: "\<forall>x\<in>set others. main_stack x \<noteq> Some (next_addr h)" using bound by auto
  have "case about_to_modify (push (Suc n)) s others mark h of
          (r, s1, h1) \<Rightarrow> atm_post s others mark h r s1 h1"
    using None sm fresh
    by (simp add: about_to_modify_def make_shared_main_def make_shared_map_def alloc_def
          set_main_def set_map_def unchanged_below_def stack_ok_def contents_def guard_of_def
          atm_post_def Let_def split: option.split nat.split)
  with atm show ?thesis by simp
next
  case (Some a)
  show ?thesis
  proof (cases "\<exists>t\<in>set others. main_stack t = Some a")
    case False
    then have "\<not> 2 < use_count (Some a) (Some a # Some a # map main_stack others)"
      by (simp add: shared_iff)
    with Some atm have "r = Inr (guard_of s)" "s1 = s\<lparr>shareable := mark\<rparr>" "h1 = h"
      by (simp_all add: about_to_modify_def guard_of_def Let_def)
    with Some ok False show ?thesis
      by (auto simp: atm_post_def stack_ok_def contents_def split: option.splits)
  next
    case True
    then have sh: "2 < use_count (Some a) (Some a # Some a # map main_stack others)"
      by (simp add: shared_iff)
    from ok Some have a: "a < next_addr h" by (simp add: stack_ok_def)
    obtain rc hc where sc: "stack_ctor h = (rc, hc)" by (cases "stack_ctor h") auto
    note scc = stack_ctor_cases[of h]
    show ?thesis
    proof (cases rc)
      case (Inl e)
      with sc scc have "e = BadAlloc" "faults h \<noteq> None" "unchanged_below h hc" by simp_all
      moreover from atm Some sh sc Inl have "r = Inl e" "s1 = s" "h1 = hc"
        by (simp_all add: about_to_modify_def Let_def)
      ultimately show ?thesis by (simp add: atm_post_def)
    next
      case (Inr new)
      let ?n = "next_addr h"
      from Inr sc scc have new: "new = \<lparr>main_stack = Some ?n, stacks_map = Some (Suc ?n), shareable = True\<rparr>"
        and mc: "main_cells hc = (main_cells h)(?n := [])"
        and pc: "map_cells hc = (map_cells h)(Suc ?n := [])"
        and na: "next_addr hc = Suc (Suc ?n)" and fl: "faults h = None \<longrightarrow> faults hc = None"
        by simp_all
      obtain r2 t2 h2 where cl:
        "copy_loop (push (Suc n)) (rev (main_cells hc a)) new (s # s # others) hc = (r2, t2, h2)"
        by (cases "copy_loop (push (Suc n)) (rev (main_cells hc a)) new (s # s # others) hc") auto
      have priv: "\<forall>x\<in>set (s # s # others). main_stack x \<noteq> Some ?n"
        using Some a bound by auto
      have m: "main_stack new = Some ?n" "stacks_map new = Some (Suc ?n)" using new by simp_all
      have inv0: "cross_inv (main_cells hc ?n) (map_cells hc (Suc ?n))" by (simp add: mc pc)
      note cp = copy_loop_private[OF cl m priv inv0]
      have src: "main_cells hc a = main_cells h a" using a by (simp add: mc)
      have ub: "unchanged_below h h2"
        using cp by (auto simp: unchanged_below_def na mc pc)
      from atm Some sh sc Inr cl have res:
        "(r, s1, h1) = (case r2 of Inl e \<Rightarrow> (Inl e, s, h2)
            | Inr u \<Rightarrow> (Inr (guard_of s), t2\<lparr>shareable := mark\<rparr>, h2))"
        by (simp add: about_to_modify_def copy_def Let_def guard_of_def split: sum.splits)
      show ?thesis
      proof (cases r2)
        case (Inl e)
        with res have "r = Inl e" "s1 = s" "h1 = h2" by simp_all
        moreover from cp Inl fl have "e = BadAlloc" "faults h \<noteq> None" by auto
        ultimately show ?thesis using ub by (simp add: atm_post_def)
      next
        case (Inr u)
        with res have r: "r = Inr (guard_of s)" "s1 = t2\<lparr>shareable := mark\<rparr>" "h1 = h2" by simp_all
        from a have ne: "a \<noteq> ?n" by simp
        from cp Inr have cont: "map snd (main_cells h2 ?n) = map snd (main_cells h a)"
          by (simp add: src mc rev_map ne)
        from cp Inr fl have f2: "faults h = None \<longrightarrow> faults h2 = None" by simp
        have okn: "stack_ok h2 (t2\<lparr>shareable := mark\<rparr>)"
          using cp by (simp add: stack_ok_def na)
        have others: "\<forall>x\<in>set others. main_stack x \<noteq> Some ?n" using bound by auto
        show ?thesis
          using r ub cp cont f2 okn others Some
          by (simp add: atm_post_def contents_def)
      qed
    qed
  qed
qed

lemma frame_private:
  assumes ub: "unchanged_below h h1"
    and priv: "\<forall>x\<in>set others. main_stack x \<noteq> Some a1"
    and na: "next_addr h1 \<le> next_addr h2"
    and mc: "\<forall>c. c \<noteq> a1 \<longrightarrow> main_cells h2 c = main_cells h1 c"
    and pc: "\<forall>b. b \<noteq> Suc a1 \<longrightarrow> map_cells h2 b = map_cells h1 b"
  shows "frame_others others h h2"
  unfolding frame_others_def
proof (intro ballI impI)
  fix x assume x: "x \<in> set others" and ok: "stack_ok h x"
  show "stack_ok h2 x \<and> deref_main x h2 = deref_main x h \<and> deref_map x h2 = deref_map x h"
  proof (cases "main_stack x")
    case None
    with ok show ?thesis by (simp add: stack_ok_def deref_main_def deref_map_def)
  next
    case (Some c)
    with priv x have ne: "c \<noteq> a1" by auto
    from ok Some have c: "c < next_addr h" by (simp add: stack_ok_def)
    from ne c mc ub have m: "main_cells h2 c = main_cells h c" by (simp add: unchanged_below_def)
    from ub na have le: "next_addr h \<le> next_addr h2" by (simp add: unchanged_below_def)
    show ?thesis
    proof (cases "stacks_map x")
      case None
      with ok Some m c le show ?thesis by (simp add: stack_ok_def deref_main_def deref_map_def)
    next
      case (Some b)
      with ok \<open>main_stack x = Some c\<close> have b: "b = Suc c" "b < next_addr h"
        by (simp_all add: stack_ok_def)
      with ne pc ub have "map_cells h2 b = map_cells h b" by (simp add: unchanged_below_def)
      with ok Some \<open>main_stack x = Some c\<close> m c le b show ?thesis
        by (simp add: stack_ok_def deref_main_def deref_map_def)
    qed
  qed
qed

lemma frame_unchanged: "unchanged_below h h' \<Longrightarrow> frame_others others h h'"
  unfolding frame_others_def unchanged_below_def
  by (auto simp: stack_ok_def deref_main_def deref_map_def split: option.splits)

lemma stack_ok_unchanged: "unchanged_below h h' \<Longrightarrow> stack_ok h s \<Longrightarrow> stack_ok h' s"
  unfolding unchanged_below_def
  by (auto simp: stack_ok_def split: option.splits)

lemma contents_unchanged: "unchanged_below h h' \<Longrightarrow> stack_ok h s \<Longrightarrow> contents s h' = contents s h"
  unfolding unchanged_below_def
  by (auto simp: stack_ok_def contents_def split: option.splits)

lemma others_bound:
  "\<forall>x\<in>set others. stack_ok h x \<Longrightarrow> \<forall>x\<in>set others. \<forall>c. main_stack x = Some c \<longrightarrow> c < next_addr h"
  by (auto simp: stack_ok_def)

text \<open>When the guard could not be built.\<close>

lemma atm_failed:
  assumes ap: "atm_post s others mark h (Inl e) s1 h1" and ok: "stack_ok h s"
  shows "stack_ok h1 s1 \<and> next_addr h \<le> next_addr h1 \<and> frame_others others h h1 \<and>
         contents s1 h1 = contents s h \<and>
         ((s1 = s \<and> unchanged_below h h1) \<or>
          (e = BadAlloc \<and> main_stack s = None \<and> s1 = s\<lparr>main_stack := Some (next_addr h)\<rparr>)) \<and>
         e = BadAlloc \<and> faults h \<noteq> None"
proof -
  from ap have ub: "unchanged_below h h1" and e: "e = BadAlloc" "faults h \<noteq> None"
    and d: "s1 = s \<or> (main_stack s = None \<and> s1 = s\<lparr>main_stack := Some (next_addr h)\<rparr> \<and>
            main_cells h1 (next_addr h) = [] \<and> next_addr h1 = Suc (next_addr h))"
    by (simp_all add: atm_post_def)
  from ub have le: "next_addr h \<le> next_addr h1" by (simp add: unchanged_below_def)
  from d show ?thesis
  proof
    assume "s1 = s"
    with ub ok e le show ?thesis
      by (simp add: frame_unchanged stack_ok_unchanged contents_unchanged)
  next
    assume h: "main_stack s = None \<and> s1 = s\<lparr>main_stack := Some (next_addr h)\<rparr> \<and>
            main_cells h1 (next_addr h) = [] \<and> next_addr h1 = Suc (next_addr h)"
    with ok have "stacks_map s = None" by (simp add: stack_ok_def)
    with h ub e le show ?thesis
      by (simp add: frame_unchanged stack_ok_def contents_def)
  qed
qed

lemma push_post:
  assumes p: "push (Suc (Suc n)) k v s others h = (r, s', h')"
    and ok: "stack_ok h s" and oks: "\<forall>x\<in>set others. stack_ok h x"
  shows "mutate_post (Push k v) s others h r s' h'"
proof -
  obtain ra s1 h1 where atm: "about_to_modify (push (Suc n)) s others True h = (ra, s1, h1)"
    by (cases "about_to_modify (push (Suc n)) s others True h") auto
  note ap = about_to_modify_post[OF atm ok others_bound[OF oks]]
  show ?thesis
  proof (cases ra)
    case (Inl e)
    with p atm have "r = Inl e" "s' = s1" "h' = h1" by (simp_all add: push_with_def)
    with atm_failed[OF ap[unfolded Inl] ok] show ?thesis
      by (auto simp: mutate_post_def)
  next
    case (Inr g)
    with ap have g: "g = guard_of s" and ub: "unchanged_below h h1" and ok1: "stack_ok h1 s1"
      and c1: "contents s1 h1 = contents s h" and fl: "faults h = None \<longrightarrow> faults h1 = None"
      by (simp_all add: atm_post_def)
    from ap Inr obtain a1 where a1: "main_stack s1 = Some a1"
      and priv: "\<forall>x\<in>set others. main_stack x \<noteq> Some a1"
      and alt: "(s1 = s\<lparr>shareable := True\<rparr> \<and> h1 = h) \<or> (next_addr h \<le> a1 \<and> stacks_map s1 = Some (Suc a1))"
      by (auto simp: atm_post_def)
    obtain rb h2 where b: "push_body k v s1 h1 = (rb, h2)" by (cases "push_body k v s1 h1") auto
    from ub have le1: "next_addr h \<le> next_addr h1" by (simp add: unchanged_below_def)
    show ?thesis
    proof (cases "stacks_map s1")
      case None
      with alt have half: "\<not> consistent s" and s1: "s1 = s\<lparr>shareable := True\<rparr>" and h1: "h1 = h"
        using a1 by (auto simp: consistent_def)
      from push_body_no_handles[where s=s1 and k=k and v=v and h=h1] None b obtain e where
        rb: "rb = Inl e" and ss: "same_store h1 h2" and e: "e = BadAlloc \<or> e = Undefined"
        and fb: "faults h1 = None \<longrightarrow> faults h2 = None"
        by (cases rb) auto
      from p atm Inr b rb g have res: "r = Inl e" "s' = s" "h' = h2" by (simp_all add: push_with_def)
      have ub2: "unchanged_below h h2" using ss h1 by (simp add: same_store_unchanged)
      from e have "e = BadAlloc \<and> faults h \<noteq> None \<or> e = Undefined \<and> \<not> consistent s"
        using half b rb None h1 a1
        by (auto simp: push_body_def alloc_def split: option.splits nat.splits)
      with res ub2 ok fb h1 show ?thesis
        by (simp add: mutate_post_def frame_unchanged stack_ok_unchanged contents_unchanged
              unchanged_below_def)
    next
      case (Some b1)
      with ok1 a1 have b1: "b1 = Suc a1" and inv: "cross_inv (main_cells h1 a1) (map_cells h1 b1)"
        and lt: "a1 < next_addr h1" "b1 < next_addr h1"
        by (auto simp: stack_ok_def)
      note pc = push_body_cases[OF a1 Some, where k=k and v=v and h=h1]
      show ?thesis
      proof (cases rb)
        case (Inl e)
        with pc b have ss: "same_store h1 h2" and e: "e = BadAlloc" "faults h1 \<noteq> None" by simp_all
        from p atm Inr b Inl g \<open>ra = Inr g\<close> have res: "r = Inl e" "s' = s" "h' = h2"
          by (simp_all add: push_with_def)
        have ub2: "unchanged_below h h2"
          using ub ss by (blast intro: unchanged_below_trans same_store_unchanged)
        from e fl have "faults h \<noteq> None" by auto
        with res ub2 ok e show ?thesis
          by (auto simp: mutate_post_def frame_unchanged stack_ok_unchanged contents_unchanged
                unchanged_below_def)
      next
        case (Inr u)
        with pc b have mc: "main_cells h2 = (main_cells h1)(a1 := (new_iter (main_cells h1 a1), k, v) # main_cells h1 a1)"
          and mp: "map_cells h2 = (map_cells h1)(b1 := pushed_map k (new_iter (main_cells h1 a1)) (map_cells h1 b1))"
          and na: "next_addr h2 = next_addr h1" and f2: "faults h1 = None \<longrightarrow> faults h2 = None"
          by simp_all
        from p atm \<open>ra = Inr g\<close> b Inr g have res: "r = Inr ()" "s' = s1" "h' = h2"
          by (simp_all add: push_with_def)
        have fr: "frame_others others h h2"
          by (rule frame_private[OF ub priv]) (simp_all add: na mc mp b1)
        have inv2: "cross_inv (main_cells h2 a1) (map_cells h2 b1)"
          using cross_inv_push[OF inv new_iter_notin, where k=k and v=v] by (simp add: mc mp)
        have ok2: "stack_ok h2 s1" using a1 Some b1 lt inv2 by (simp add: stack_ok_def na)
        have c2: "contents s1 h2 = (k, v) # contents s h"
          using c1 a1 by (simp add: contents_def mc)
        from res fr ok2 c2 le1 fl f2 a1 Some show ?thesis
          by (simp add: mutate_post_def na abs_result_def abs_mutate_def consistent_def)
      qed
    qed
  qed
qed

lemma key_ids_filter_Nil: "key_ids k xs = [] \<longleftrightarrow> filter (\<lambda>e. fst e = k) (map snd xs) = []"
  by (auto simp: key_ids_def filter_empty_conv)

lemma index_of_Some: "index_of xs k = Some st \<Longrightarrow> key_ids k xs = st \<and> st \<noteq> []"
  by (simp add: index_of_def split: if_splits)

lemma index_of_None: "index_of xs k = None \<Longrightarrow> key_ids k xs = []"
  by (simp add: index_of_def split: if_splits)

lemma pop_post:
  assumes p: "pop (Suc n) s others h = (r, s', h')"
    and ok: "stack_ok h s" and oks: "\<forall>x\<in>set others. stack_ok h x"
  shows "mutate_post Pop s others h r s' h'"
proof (cases "main_stack s = None \<or> deref_main s h = Some []")
  case True
  obtain e h1 where t: "throw_invalid_argument EmptyContainer h = (e, h1)"
    by (cases "throw_invalid_argument EmptyContainer h :: error \<times> ('a, 'b) heap") auto
  with p True have res: "r = Inl e" "s' = s" "h' = h1" by (simp_all add: pop_def)
  from throw_cases[where e=EmptyContainer and h=h] t have ss: "same_store h h1"
    and fl: "faults h = None \<longrightarrow> faults h1 = None"
    and e: "e = EmptyContainer \<or> e = BadAlloc \<and> faults h \<noteq> None" by simp_all
  from True have "contents s h = []" by (auto simp: contents_def deref_main_def)
  with res ok fl e same_store_unchanged[OF ss] show ?thesis
    by (auto simp: mutate_post_def frame_unchanged stack_ok_unchanged contents_unchanged
          abs_result_def unchanged_below_def)
next
  case False
  then obtain a where a: "main_stack s = Some a" and ne: "main_cells h a \<noteq> []"
    by (auto simp: deref_main_def)
  with ok have cons: "consistent s" by (auto simp: stack_ok_def consistent_def split: option.splits)
  from a ne have cne: "contents s h \<noteq> []" by (simp add: contents_def)
  obtain ra s1 h1 where atm: "about_to_modify (push (Suc n)) s others True h = (ra, s1, h1)"
    by (cases "about_to_modify (push (Suc n)) s others True h") auto
  note ap = about_to_modify_post[OF atm ok others_bound[OF oks]]
  show ?thesis
  proof (cases ra)
    case (Inl e)
    with p atm False have "r = Inl e" "s' = s1" "h' = h1" by (simp_all add: pop_def)
    with atm_failed[OF ap[unfolded Inl] ok] show ?thesis
      by (auto simp: mutate_post_def)
  next
    case (Inr g)
    with ap have g: "g = guard_of s" and ub: "unchanged_below h h1" and ok1: "stack_ok h1 s1"
      and c1: "contents s1 h1 = contents s h" and fl: "faults h = None \<longrightarrow> faults h1 = None"
      by (simp_all add: atm_post_def)
    from ap Inr obtain a1 where a1: "main_stack s1 = Some a1"
      and priv: "\<forall>x\<in>set others. main_stack x \<noteq> Some a1"
      by (auto simp: atm_post_def)
    from c1 cne a1 obtain e es where xs: "main_cells h1 a1 = e # es"
      by (cases "main_cells h1 a1") (auto simp: contents_def)
    with ok1 a1 have sm: "stacks_map s1 = Some (Suc a1)"
      and inv: "cross_inv (main_cells h1 a1) (map_cells h1 (Suc a1))"
      and lt: "a1 < next_addr h1" "Suc a1 < next_addr h1"
      by (auto simp: stack_ok_def split: option.splits)
    from cross_inv_find[OF inv, of "fst (snd e)"] xs
    have f: "map_find (fst (snd e)) (map_cells h1 (Suc a1)) = Some (fst e # key_ids (fst (snd e)) es)"
      by (simp add: index_of_def key_ids_Cons)
    note pb = pop_body_ok[OF a1 sm xs f]
    let ?h2 = "h1\<lparr>main_cells := (main_cells h1)(a1 := es),
                  map_cells := (map_cells h1)(Suc a1 := popped_map (fst (snd e)) (map_cells h1 (Suc a1)))\<rparr>"
    from p atm Inr g pb False have res: "r = Inr ()" "s' = s1" "h' = ?h2"
      by (simp_all add: pop_def)
    from ub have le1: "next_addr h \<le> next_addr h1" by (simp add: unchanged_below_def)
    have fr: "frame_others others h ?h2"
      by (rule frame_private[OF ub priv]) simp_all
    have inv2: "cross_inv (main_cells ?h2 a1) (map_cells ?h2 (Suc a1))"
      using cross_inv_pop[of e es "map_cells h1 (Suc a1)"] inv xs by simp
    have ok2: "stack_ok ?h2 s1" using a1 sm lt inv2 by (simp add: stack_ok_def)
    have "contents s1 ?h2 = tl (contents s1 h1)"
      using a1 xs by (simp add: contents_def)
    then have c2: "contents s1 ?h2 = tl (contents s h)" by (simp only: c1)
    from res fr ok2 c2 le1 fl a1 sm cne show ?thesis
      by (simp add: mutate_post_def abs_result_def abs_mutate_def consistent_def)
  qed
qed

lemma pop_key_post:
  assumes p: "pop_key (Suc n) k s others h = (r, s', h')"
    and ok: "stack_ok h s" and oks: "\<forall>x\<in>set others. stack_ok h x"
  shows "mutate_post (PopKey k) s others h r s' h'"
proof -
  obtain ra s1 h1 where atm: "about_to_modify (push (Suc n)) s others True h = (ra, s1, h1)"
    by (cases "about_to_modify (push (Suc n)) s others True h") auto
  note ap = about_to_modify_post[OF atm ok others_bound[OF oks]]
  show ?thesis
  proof (cases ra)
    case (Inl e)
    with p atm have "r = Inl e" "s' = s1" "h' = h1" by (simp_all add: pop_key_def)
    with atm_failed[OF ap[unfolded Inl] ok] show ?thesis
      by (auto simp: mutate_post_def)
  next
    case (Inr g)
    with ap have g: "g = guard_of s" and ub: "unchanged_below h h1" and ok1: "stack_ok h1 s1"
      and c1: "contents s1 h1 = contents s h" and fl: "faults h = None \<longrightarrow> faults h1 = None"
      by (simp_all add: atm_post_def)
    from ap Inr obtain a1 where a1: "main_stack s1 = Some a1"
      and priv: "\<forall>x\<in>set others. main_stack x \<noteq> Some a1"
      and alt: "(s1 = s\<lparr>shareable := True\<rparr> \<and> h1 = h) \<or> (next_addr h \<le> a1 \<and> stacks_map s1 = Some (Suc a1))"
      by (auto simp: atm_post_def)
    obtain rb h2 where b: "pop_key_body k s1 h1 = (rb, h2)" by (cases "pop_key_body k s1 h1") auto
    from ub have le1: "next_addr h \<le> next_addr h1" by (simp add: unchanged_below_def)
    show ?thesis
    proof (cases "stacks_map s1")
      case None
      with alt have half: "\<not> consistent s" and s1: "s1 = s\<lparr>shareable := True\<rparr>" and h1: "h1 = h"
        using a1 by (auto simp: consistent_def)
      from pop_key_body_no_handles[where s=s1 and k=k and h=h1] None b obtain e where
        rb: "rb = Inl e" and ss: "same_store h1 h2" and e: "e = BadAlloc \<or> e = Undefined"
        and fb: "faults h1 = None \<longrightarrow> faults h2 = None"
        by (cases rb) auto
      from p atm Inr b rb g have res: "r = Inl e" "s' = s" "h' = h2" by (simp_all add: pop_key_def)
      have ub2: "unchanged_below h h2" using ss h1 by (simp add: same_store_unchanged)
      from e have "e = BadAlloc \<and> faults h \<noteq> None \<or> e = Undefined \<and> \<not> consistent s"
        using half b rb None h1 a1
        by (auto simp: pop_key_body_def alloc_def split: option.splits nat.splits)
      with res ub2 ok fb h1 show ?thesis
        by (simp add: mutate_post_def frame_unchanged stack_ok_unchanged contents_unchanged
              unchanged_below_def)
    next
      case (Some b1)
      with ok1 a1 have b1: "b1 = Suc a1" and inv: "cross_inv (main_cells h1 a1) (map_cells h1 b1)"
        and lt: "a1 < next_addr h1" "b1 < next_addr h1"
        by (auto simp: stack_ok_def)
      note d = cross_inv_distinct[OF inv]
      note fd = cross_inv_find[OF inv, of k]
      note pc = pop_key_body_cases[OF a1 Some, where k=k and h=h1]
      have cs: "contents s h = map snd (main_cells h1 a1)" using c1 a1 by (simp add: contents_def)
      show ?thesis
      proof (cases rb)
        case (Inl e)
        with pc b have ss: "same_store h1 h2" and fb: "faults h1 = None \<longrightarrow> faults h2 = None"
          and e: "e = BadAlloc \<and> faults h1 \<noteq> None \<or>
                  e = KeyNotFound \<and> (map_find k (map_cells h1 b1) = None \<or> map_find k (map_cells h1 b1) = Some []) \<or>
                  e = Undefined \<and> (\<exists>tp st. map_find k (map_cells h1 b1) = Some (tp # st) \<and>
                                 node_at tp (main_cells h1 a1) = None)"
          by simp_all
        from p atm \<open>ra = Inr g\<close> b Inl g have res: "r = Inl e" "s' = s" "h' = h2"
          by (simp_all add: pop_key_def)
        have ub2: "unchanged_below h h2"
          using ub ss by (blast intro: unchanged_below_trans same_store_unchanged)
        have "abs_result (PopKey k) (contents s h) = Inl e \<or> e = BadAlloc \<and> faults h \<noteq> None"
          using e
        proof (elim disjE conjE exE)
          assume "e = BadAlloc" "faults h1 \<noteq> None"
          with fl show ?thesis by auto
        next
          assume "e = KeyNotFound" "map_find k (map_cells h1 b1) = None"
          with fd have "key_ids k (main_cells h1 a1) = []" by (simp add: index_of_None)
          then show ?thesis using \<open>e = KeyNotFound\<close> cs
            by (simp add: abs_result_def key_ids_filter_Nil)
        next
          assume "e = KeyNotFound" "map_find k (map_cells h1 b1) = Some []"
          with fd index_of_Some[of "main_cells h1 a1" k "[]"] show ?thesis by simp
        next
          fix tp st assume "map_find k (map_cells h1 b1) = Some (tp # st)"
            and n: "node_at tp (main_cells h1 a1) = None"
          with fd have "key_ids k (main_cells h1 a1) = tp # st" by (simp add: index_of_Some)
          from node_at_key_ids[OF d this] n show ?thesis by simp
        qed
        with res ub2 ok fb fl show ?thesis
          by (auto simp: mutate_post_def frame_unchanged stack_ok_unchanged contents_unchanged
                unchanged_below_def)
      next
        case (Inr u)
        with pc b obtain tp st where f: "map_find k (map_cells h1 b1) = Some (tp # st)"
          and mc: "main_cells h2 = (main_cells h1)(a1 := list_erase tp (main_cells h1 a1))"
          and mp: "map_cells h2 = (map_cells h1)(b1 := popped_map k (map_cells h1 b1))"
          and na: "next_addr h2 = next_addr h1" and f2: "faults h1 = None \<longrightarrow> faults h2 = None"
          by auto
        from f fd have ids: "key_ids k (main_cells h1 a1) = tp # st" by (simp add: index_of_Some)
        from p atm \<open>ra = Inr g\<close> b Inr g have res: "r = Inr ()" "s' = s1" "h' = h2"
          by (simp_all add: pop_key_def)
        have fr: "frame_others others h h2"
          by (rule frame_private[OF ub priv]) (simp_all add: na mc mp b1)
        have inv2: "cross_inv (main_cells h2 a1) (map_cells h2 b1)"
          using cross_inv_pop_key[OF inv f] by (simp add: mc mp)
        have ok2: "stack_ok h2 s1" using a1 Some b1 lt inv2 by (simp add: stack_ok_def na)
        have c2: "contents s1 h2 = remove_first k (contents s h)"
          using cs a1 contents_erase[OF d ids] by (simp add: contents_def mc)
        have ar: "abs_result (PopKey k) (contents s h) = Inr ()"
          using ids cs key_ids_filter_Nil[of k "main_cells h1 a1"] by (simp add: abs_result_def)
        from res fr ok2 c2 le1 fl f2 a1 Some ar show ?thesis
          by (simp add: mutate_post_def na abs_mutate_def consistent_def)
      qed
    qed
  qed
qed

lemma mutate_correct:
  assumes "mutate (Suc (Suc n)) m s others h = (r, s', h')"
    and "stack_ok h s" and "\<forall>x\<in>set others. stack_ok h x"
  shows "mutate_post m s others h r s' h'"
  using assms
  by (cases m) (simp_all add: mutate_def push_post pop_post pop_key_post del: push.simps)

lemma iterate_end: "iterate m [] = map fst m"
  by (induction m) auto

lemma no_faults_simps [simp]:
  "main_cells (no_faults h) = main_cells h" "map_cells (no_faults h) = map_cells h"
  "next_addr (no_faults h) = next_addr h" "faults (no_faults h) = None"
  "contents s (no_faults h) = contents s h"
  "deref_main s (no_faults h) = deref_main s h" "deref_map s (no_faults h) = deref_map s h"
  by (simp_all add: no_faults_def contents_def deref_main_def deref_map_def split: option.splits)

lemma stack_ok_no_faults [simp]: "stack_ok (no_faults h) s = stack_ok h s"
  by (simp add: stack_ok_def split: option.splits)

lemma size_contents: "size_st s h = length (contents s h)"
  by (simp add: size_st_def contents_def deref_main_def split: option.splits)

lemma front_contents:
  "faults h = None \<Longrightarrow>
   front s h = (case contents s h of [] \<Rightarrow> Inl EmptyContainer | e # es \<Rightarrow> Inr e)"
  by (auto simp: front_def contents_def deref_main_def split: option.splits list.splits)

lemma front_cases:
  "case front s h of
     Inl e \<Rightarrow> contents s h = [] \<and> (e = EmptyContainer \<or> e = BadAlloc \<and> faults h \<noteq> None)
   | Inr kv \<Rightarrow> contents s h \<noteq> [] \<and> kv = hd (contents s h)"
  using throw_cases[where e=EmptyContainer and h=h]
  by (auto simp: front_def contents_def deref_main_def split: option.splits list.splits prod.splits)

lemma length_key_ids: "length (key_ids k xs) = length (filter (\<lambda>e. fst e = k) (map snd xs))"
  by (induction xs) (auto simp: key_ids_def)

lemma count_contents:
  assumes "stack_ok h s" and "consistent s" and "faults h = None"
  shows "count_st k s h = Inr (length (filter (\<lambda>e. fst e = k) (contents s h)))"
proof (cases "main_stack s")
  case None
  then show ?thesis by (simp add: count_st_def contents_def)
next
  case (Some a)
  with assms obtain b where b: "stacks_map s = Some b"
    and inv: "cross_inv (main_cells h a) (map_cells h b)"
    by (auto simp: stack_ok_def consistent_def split: option.splits)
  have "count_st k s h = Inr (length (key_ids k (main_cells h a)))"
    using cross_inv_find[OF inv, of k] Some b assms(3)
    by (simp add: count_st_def deref_map_def index_of_def)
  also have "length (key_ids k (main_cells h a)) = length (filter (\<lambda>e. fst e = k) (contents s h))"
    using Some by (simp only: length_key_ids contents_def option.case)
  finally show ?thesis .
qed

text \<open>The reference \<^verbatim>\<open>front(k)\<close> finds, or the error it throws.\<close>

lemma key_top_cases:
  assumes ok: "stack_ok h s" and a: "main_stack s = Some a" and b: "stacks_map s = Some b"
  shows "case key_top k s h of
           (Inl e, h') \<Rightarrow>
             same_store h h' \<and> (faults h = None \<longrightarrow> faults h' = None) \<and>
             filter (\<lambda>e. fst e = k) (contents s h) = [] \<and>
             (e = KeyNotFound \<or> e = BadAlloc \<and> faults h \<noteq> None)
         | (Inr r, h') \<Rightarrow>
             h' = h \<and> ref_list r = a \<and> filter (\<lambda>e. fst e = k) (contents s h) \<noteq> [] \<and>
             read_ref r h = Inr (snd (hd (filter (\<lambda>e. fst e = k) (contents s h))))"
proof -
  from ok a b have inv: "cross_inv (main_cells h a) (map_cells h b)"
    by (auto simp: stack_ok_def)
  note d = cross_inv_distinct[OF inv]
  have cs: "contents s h = map snd (main_cells h a)" using a by (simp add: contents_def)
  show ?thesis
  proof (cases "key_ids k (main_cells h a)")
    case Nil
    with cross_inv_find[OF inv, of k] have f: "map_find k (map_cells h b) = None"
      by (simp add: index_of_def)
    from Nil have em: "filter (\<lambda>e. fst e = k) (contents s h) = []"
      by (simp add: cs key_ids_filter_Nil)
    obtain e h1 where t: "throw_invalid_argument KeyNotFound h = (e, h1)"
      by (cases "throw_invalid_argument KeyNotFound h :: error \<times> ('a, 'b) heap") auto
    with a b f have "key_top k s h = (Inl e, h1)" by (simp add: key_top_def)
    with throw_cases[where e=KeyNotFound and h=h] t em show ?thesis by simp
  next
    case (Cons tp st)
    from node_at_key_ids[OF d Cons] obtain v where
      n: "node_at tp (main_cells h a) = Some (k, v)"
      and f: "filter (\<lambda>e. fst e = k) (map snd (main_cells h a)) \<noteq> []"
      and hd: "hd (filter (\<lambda>e. fst e = k) (map snd (main_cells h a))) = (k, v)"
      by auto
    from cross_inv_find[OF inv, of k] Cons have "map_find k (map_cells h b) = Some (tp # st)"
      by (simp add: index_of_def)
    with a b have "key_top k s h = (Inr \<lparr>ref_list = a, ref_node = tp\<rparr>, h)"
      by (simp add: key_top_def)
    with n f hd show ?thesis by (simp add: cs read_ref_def)
  qed
qed

lemma front_key_contents:
  assumes "stack_ok h s" and "consistent s" and "faults h = None"
  shows "front_key k s h =
           (case filter (\<lambda>e. fst e = k) (contents s h) of
              [] \<Rightarrow> Inl KeyNotFound | e # es \<Rightarrow> Inr (snd e))"
proof (cases "main_stack s")
  case None
  with assms(3) show ?thesis by (simp add: front_key_def contents_def)
next
  case (Some a)
  with assms(2) obtain b where b: "stacks_map s = Some b" by (auto simp: consistent_def)
  obtain rk h1 where kt: "key_top k s h = (rk, h1)" by (cases "key_top k s h") auto
  from Some assms(3) have "front_key k s h = (case key_top k s h of (Inl e, h2) \<Rightarrow> Inl e
      | (Inr r, h2) \<Rightarrow> read_ref r h2)"
    by (simp add: front_key_def)
  then have fk: "front_key k s h = (case rk of Inl e \<Rightarrow> Inl e | Inr r \<Rightarrow> read_ref r h1)"
    by (simp only: kt prod.case)
  from key_top_cases[OF assms(1) Some b, of k] kt assms(3) fk show ?thesis
    by (cases rk) (auto split: list.splits)
qed

lemma keys_contents:
  assumes "stack_ok h s"
  shows "keys s h = sorted_list_of_set (fst ` set (contents s h))"
proof (cases "main_stack s")
  case None
  with assms have "stacks_map s = None" by (simp add: stack_ok_def)
  with None show ?thesis by (simp add: keys_def cbegin_def cend_def contents_def)
next
  case (Some a)
  show ?thesis
  proof (cases "stacks_map s")
    case None
    with Some assms have "main_cells h a = []" by (simp add: stack_ok_def)
    with Some None show ?thesis by (simp add: keys_def cbegin_def cend_def contents_def)
  next
    case (Some b)
    with \<open>main_stack s = Some a\<close> assms have inv: "cross_inv (main_cells h a) (map_cells h b)"
      by (auto simp: stack_ok_def)
    let ?m = "map_cells h b"
    have k: "keys s h = map fst ?m"
      using Some by (simp add: keys_def cbegin_def cend_def deref_map_def iterate_end)
    from inv have st: "sorted_wrt (<) (map fst ?m)" by (rule cross_inv_sorted)
    then have sd: "sorted (map fst ?m)" "distinct (map fst ?m)" by (simp_all add: strict_sorted_iff)
    from inv have kk: "\<And>k. (k \<in> fst ` set ?m) = (\<exists>e\<in>set (main_cells h a). fst (snd e) = k)"
      by (simp add: cross_inv_def)
    have aux: "(k \<in> fst ` set (map snd xs)) = (\<exists>e\<in>set xs. fst (snd e) = k)"
      for k and xs :: "('a, 'b) main_stack_t"
      by (induction xs) auto
    have "fst ` set ?m = fst ` set (map snd (main_cells h a))"
    proof (rule set_eqI)
      fix k show "(k \<in> fst ` set ?m) = (k \<in> fst ` set (map snd (main_cells h a)))"
        by (simp only: kk aux)
    qed
    also have "map snd (main_cells h a) = contents s h"
      using \<open>main_stack s = Some a\<close> by (simp add: contents_def)
    finally have se: "set (map fst ?m) = fst ` set (contents s h)" by (simp only: set_map)
    have "sorted_list_of_set (set (map fst ?m)) = map fst ?m"
      by (rule sorted_list_of_set.idem_if_sorted_distinct[OF sd])
    then have "sorted_list_of_set (fst ` set (contents s h)) = map fst ?m" by (simp only: se)
    then show ?thesis by (simp only: k)
  qed
qed

lemma observe_contents:
  assumes "stack_ok h s" and "consistent s"
  shows "observe s h = abs_observe (contents s h)"
  using assms
  by (simp add: observe_def abs_observe_def size_contents front_contents keys_contents
        count_contents front_key_contents)

lemma count_no_faults:
  "count_st k s (no_faults h) =
     (if main_stack s = None then Inr 0
      else case deref_map s h of
             None \<Rightarrow> Inl Undefined
           | Some m \<Rightarrow> (case map_find k m of None \<Rightarrow> Inr 0 | Some st \<Rightarrow> Inr (length st)))"
  by (simp add: count_st_def)

lemma front_no_faults:
  "front s (no_faults h) =
     (if main_stack s = None \<or> deref_main s h = Some [] then Inl EmptyContainer
      else case deref_main s h of Some (e # es) \<Rightarrow> Inr (snd e) | _ \<Rightarrow> Inl Undefined)"
  by (simp add: front_def cong: if_cong)

lemma front_key_no_faults:
  "front_key k s (no_faults h) =
     (if main_stack s = None then Inl KeyNotFound
      else case (deref_main s h, deref_map s h) of
        (Some xs, Some m) \<Rightarrow>
          (case map_find k m of
             None \<Rightarrow> Inl KeyNotFound
           | Some st \<Rightarrow>
               (case st of
                  [] \<Rightarrow> Inl KeyNotFound
                | tp # st' \<Rightarrow>
                    (case node_at tp xs of None \<Rightarrow> Inl Undefined | Some kv \<Rightarrow> Inr (snd kv))))
      | _ \<Rightarrow> Inl Undefined)"
  by (simp add: front_key_def key_top_def read_ref_def deref_main_def deref_map_def
        split: option.split list.split)

lemma size_deref:
  "size_st s h = (if main_stack s = None then 0
                  else case deref_main s h of None \<Rightarrow> 0 | Some xs \<Rightarrow> length xs)"
  by (simp add: size_st_def)

lemma keys_deref:
  "keys s h = iterate (if stacks_map s = None then []
                       else case deref_map s h of None \<Rightarrow> [] | Some m \<Rightarrow> m) []"
  by (simp add: keys_def cbegin_def cend_def)

lemma observe_deref:
  assumes "deref_main s h' = deref_main s h" and "deref_map s h' = deref_map s h"
  shows "observe s h' = observe s h"
  unfolding observe_def count_no_faults front_key_no_faults size_deref keys_deref front_no_faults
  by (simp only: assms)

lemma atm_failed_kept:
  assumes "atm_post s others mark h (Inl e) s1 h1" and "stack_ok h s"
  shows "kept s others h s1 h1 \<and> rolled_back s h e s1 h1 \<and> e = BadAlloc \<and> faults h \<noteq> None"
  using atm_failed[OF assms] by (auto simp: kept_def rolled_back_def)

lemma kept_unchanged:
  "unchanged_below h h' \<Longrightarrow> stack_ok h s \<Longrightarrow> faults h = None \<longrightarrow> faults h' = None \<Longrightarrow>
   kept s others h s h'"
  by (simp add: kept_def frame_unchanged stack_ok_unchanged contents_unchanged unchanged_below_def)

lemma atm_ok_kept:
  assumes "atm_post s others mark h (Inr g) s1 h1"
  shows "kept s others h s1 h1"
  using assms
  by (simp add: atm_post_def kept_def frame_unchanged unchanged_below_def)

text \<open>
  The mutable \<^verbatim>\<open>front()\<close>: the key of the front entry and a reference into storage that no
  other live stack holds, through which the value of the front entry is read.
\<close>

lemma front_mut_post:
  assumes p: "front_mut (Suc n) s others h = (r, s', h')"
    and ok: "stack_ok h s" and oks: "\<forall>x\<in>set others. stack_ok h x"
  shows "kept s others h s' h' \<and>
         (case r of
            Inr kr \<Rightarrow> contents s h \<noteq> [] \<and> fst kr = fst (hd (contents s h)) \<and>
                      read_ref (snd kr) h' = Inr (snd (hd (contents s h))) \<and>
                      main_stack s' = Some (ref_list (snd kr)) \<and>
                      (\<forall>x\<in>set others. main_stack x \<noteq> Some (ref_list (snd kr))) \<and>
                      consistent s' \<and> \<not> shareable s' \<and> (faults h = None \<longrightarrow> faults h' = None)
          | Inl e \<Rightarrow> rolled_back s h e s' h' \<and>
                     (e = EmptyContainer \<and> contents s h = [] \<or> e = BadAlloc \<and> faults h \<noteq> None))"
proof (cases "main_stack s = None \<or> deref_main s h = Some []")
  case True
  obtain e h1 where t: "throw_invalid_argument EmptyContainer h = (e, h1)"
    by (cases "throw_invalid_argument EmptyContainer h :: error \<times> ('a, 'b) heap") auto
  with p True have res: "r = Inl e" "s' = s" "h' = h1" by (simp_all add: front_mut_def)
  from throw_cases[where e=EmptyContainer and h=h] t have ss: "same_store h h1"
    and fl: "faults h = None \<longrightarrow> faults h1 = None"
    and e: "e = EmptyContainer \<or> e = BadAlloc \<and> faults h \<noteq> None" by simp_all
  from True have "contents s h = []" by (auto simp: contents_def deref_main_def)
  with res e kept_unchanged[OF same_store_unchanged[OF ss] ok fl] same_store_unchanged[OF ss]
  show ?thesis by (auto simp: rolled_back_def)
next
  case False
  then obtain a where a: "main_stack s = Some a" and ne: "main_cells h a \<noteq> []"
    by (auto simp: deref_main_def)
  from a ne have cne: "contents s h \<noteq> []" by (simp add: contents_def)
  obtain ra s1 h1 where atm: "about_to_modify (push (Suc n)) s others False h = (ra, s1, h1)"
    by (cases "about_to_modify (push (Suc n)) s others False h") auto
  note ap = about_to_modify_post[OF atm ok others_bound[OF oks]]
  show ?thesis
  proof (cases ra)
    case (Inl e)
    with p atm False have "r = Inl e" "s' = s1" "h' = h1" by (simp_all add: front_mut_def)
    with atm_failed_kept[OF ap[unfolded Inl] ok] show ?thesis by auto
  next
    case (Inr g)
    with ap have g: "g = guard_of s" and ok1: "stack_ok h1 s1" and sh: "\<not> shareable s1"
      and c1: "contents s1 h1 = contents s h" and fl: "faults h = None \<longrightarrow> faults h1 = None"
      by (simp_all add: atm_post_def)
    from ap Inr obtain a1 where a1: "main_stack s1 = Some a1"
      and priv: "\<forall>x\<in>set others. main_stack x \<noteq> Some a1"
      by (auto simp: atm_post_def)
    from c1 cne a1 obtain e es where xs: "main_cells h1 a1 = e # es"
      by (cases "main_cells h1 a1") (auto simp: contents_def)
    with ok1 a1 have cons: "consistent s1"
      by (auto simp: stack_ok_def consistent_def split: option.splits)
    from p atm Inr g a ne a1 xs
    have res: "r = Inr (fst (snd e), \<lparr>ref_list = a1, ref_node = fst e\<rparr>)" "s' = s1" "h' = h1"
      by (simp_all add: front_mut_def deref_main_def about_to_modify_dtor_def drop_roll_back_def
            guard_of_def)
    have "hd (contents s1 h1) = snd e" using a1 xs by (simp add: contents_def)
    with c1 have hd: "snd e = hd (contents s h)" by simp
    have rd: "read_ref \<lparr>ref_list = a1, ref_node = fst e\<rparr> h1 = Inr (snd (snd e))"
      using xs by (simp add: read_ref_def)
    from res atm_ok_kept[OF ap[unfolded Inr]] cne cons sh fl a1 priv hd rd show ?thesis by simp
  qed
qed

lemma front_key_mut_post:
  assumes p: "front_key_mut (Suc n) k s others h = (r, s', h')"
    and ok: "stack_ok h s" and oks: "\<forall>x\<in>set others. stack_ok h x"
  shows "kept s others h s' h' \<and>
         (case r of
            Inr ref \<Rightarrow> filter (\<lambda>e. fst e = k) (contents s h) \<noteq> [] \<and>
                     read_ref ref h' = Inr (snd (hd (filter (\<lambda>e. fst e = k) (contents s h)))) \<and>
                     main_stack s' = Some (ref_list ref) \<and>
                     (\<forall>x\<in>set others. main_stack x \<noteq> Some (ref_list ref)) \<and>
                     consistent s' \<and> \<not> shareable s' \<and> (faults h = None \<longrightarrow> faults h' = None)
          | Inl e \<Rightarrow> rolled_back s h e s' h' \<and>
                     (e = KeyNotFound \<and> filter (\<lambda>e. fst e = k) (contents s h) = [] \<or>
                      e = BadAlloc \<and> faults h \<noteq> None \<or> e = Undefined \<and> \<not> consistent s))"
proof -
  obtain ra s1 h1 where atm: "about_to_modify (push (Suc n)) s others False h = (ra, s1, h1)"
    by (cases "about_to_modify (push (Suc n)) s others False h") auto
  note ap = about_to_modify_post[OF atm ok others_bound[OF oks]]
  show ?thesis
  proof (cases ra)
    case (Inl e)
    with p atm have "r = Inl e" "s' = s1" "h' = h1" by (simp_all add: front_key_mut_def)
    with atm_failed_kept[OF ap[unfolded Inl] ok] show ?thesis by auto
  next
    case (Inr g)
    with ap have g: "g = guard_of s" and ub: "unchanged_below h h1" and ok1: "stack_ok h1 s1"
      and sh: "\<not> shareable s1"
      and c1: "contents s1 h1 = contents s h" and fl: "faults h = None \<longrightarrow> faults h1 = None"
      by (simp_all add: atm_post_def)
    from ap Inr obtain a1 where a1: "main_stack s1 = Some a1"
      and priv: "\<forall>x\<in>set others. main_stack x \<noteq> Some a1"
      and alt: "(s1 = s\<lparr>shareable := False\<rparr> \<and> h1 = h) \<or> (next_addr h \<le> a1 \<and> stacks_map s1 = Some (Suc a1))"
      by (auto simp: atm_post_def)
    have dt: "about_to_modify_dtor g s1 = s" "about_to_modify_dtor (drop_roll_back g) s1 = s1"
      by (simp_all add: g about_to_modify_dtor_def drop_roll_back_def guard_of_def)
    show ?thesis
    proof (cases "alloc h1")
      case (Inl e)
      with p atm \<open>ra = Inr g\<close> dt have res: "r = Inl e" "s' = s" "h' = h1"
        by (simp_all add: front_key_mut_def)
      from alloc_Inl[OF Inl] fl have "e = BadAlloc" "faults h \<noteq> None" by auto
      with res kept_unchanged[OF ub ok] ub show ?thesis by (auto simp: rolled_back_def)
    next
      case (Inr h2)
      from alloc_Inr[OF Inr] have ss: "same_store h1 h2" and f2: "faults h1 = None \<longrightarrow> faults h2 = None"
        by simp_all
      have ub2: "unchanged_below h h2"
        using ub ss by (blast intro: unchanged_below_trans same_store_unchanged)
      have ok2: "stack_ok h2 s1"
        by (rule stack_ok_unchanged[OF same_store_unchanged[OF ss] ok1])
      from fl f2 have f02: "faults h = None \<longrightarrow> faults h2 = None" by simp
      have c2: "contents s1 h2 = contents s h"
        using c1 contents_unchanged[OF same_store_unchanged[OF ss] ok1] by simp
      obtain rk h3 where kt: "key_top k s1 h2 = (rk, h3)" by (cases "key_top k s1 h2") auto
      note run = p atm \<open>ra = Inr g\<close> \<open>alloc h1 = Inr h2\<close> kt dt
      show ?thesis
      proof (cases "stacks_map s1")
        case None
        with alt a1 have half: "\<not> consistent s" by (auto simp: consistent_def)
        from None a1 kt have "rk = Inl Undefined" "h3 = h2" by (simp_all add: key_top_def)
        with run have "r = Inl Undefined" "s' = s" "h' = h2"
          by (simp_all add: front_key_mut_def)
        with half kept_unchanged[OF ub2 ok f02] ub2 show ?thesis by (simp add: rolled_back_def)
      next
        case (Some b1)
        with a1 have cons: "consistent s1" by (simp add: consistent_def)
        note tv = key_top_cases[OF ok2 a1 Some, of k]
        show ?thesis
        proof (cases rk)
          case (Inl e)
          with tv kt c2 have ss3: "same_store h2 h3" and f3: "faults h2 = None \<longrightarrow> faults h3 = None"
            and em: "filter (\<lambda>e. fst e = k) (contents s h) = []"
            and e: "e = KeyNotFound \<or> e = BadAlloc \<and> faults h2 \<noteq> None"
            by simp_all
          from Inl run have r3: "r = Inl e" "s' = s" "h' = h3"
            by (simp_all add: front_key_mut_def)
          have ub3: "unchanged_below h h3"
            using ub2 ss3 by (blast intro: unchanged_below_trans same_store_unchanged)
          from f02 f3 have f03: "faults h = None \<longrightarrow> faults h3 = None" by simp
          from e f02 have "e = KeyNotFound \<or> e = BadAlloc \<and> faults h \<noteq> None" by auto
          with r3 em kept_unchanged[OF ub3 ok f03] ub3 show ?thesis
            by (auto simp: rolled_back_def)
        next
          case (Inr ref)
          with tv kt c2 have h3: "h3 = h2" and rl: "ref_list ref = a1"
            and ne: "filter (\<lambda>e. fst e = k) (contents s h) \<noteq> []"
            and rd: "read_ref ref h2 = Inr (snd (hd (filter (\<lambda>e. fst e = k) (contents s h))))"
            by simp_all
          from Inr run h3 have r3: "r = Inr ref" "s' = s1" "h' = h2"
            by (simp_all add: front_key_mut_def)
          from ub2 have "next_addr h \<le> next_addr h2" by (simp add: unchanged_below_def)
          with r3 ne rd rl a1 priv ok2 c2 cons sh f02 frame_unchanged[OF ub2, of others]
          show ?thesis by (simp add: kept_def)
        qed
      qed
    qed
  qed
qed

lemma stack_copy_ctor_post:
  assumes p: "stack_copy_ctor (Suc n) A others h = (r, h')"
    and ok: "stack_ok h A" and oks: "\<forall>x\<in>set others. stack_ok h x"
  shows "unchanged_below h h' \<and>
         (case r of
            Inl e \<Rightarrow> e = BadAlloc \<and> faults h \<noteq> None \<and> \<not> shareable A
          | Inr B \<Rightarrow>
              stack_ok h' B \<and> shareable B \<and> contents B h' = contents A h \<and>
              (faults h = None \<longrightarrow> faults h' = None) \<and>
              (if shareable A
               then main_stack B = main_stack A \<and> stacks_map B = stacks_map A \<and> h' = h
               else main_stack B = Some (next_addr h) \<and> stacks_map B = Some (Suc (next_addr h))))"
proof (cases "shareable A")
  case True
  with p have "r = Inr \<lparr>main_stack = main_stack A, stacks_map = stacks_map A, shareable = True\<rparr>" "h' = h"
    by (simp_all add: stack_copy_ctor_def)
  with ok True show ?thesis by (auto simp: stack_ok_def contents_def split: option.splits)
next
  case False
  let ?n = "next_addr h"
  note c1 = make_shared_main_cases[of h]
  show ?thesis
  proof (cases "make_shared_main h")
    case (Inl e)
    with p False have "r = Inl e" "h' = h" by (simp_all add: stack_copy_ctor_def)
    with c1 Inl False show ?thesis by simp
  next
    case (Inr ah)
    obtain a h1 where ah: "ah = (a, h1)" by (cases ah)
    with c1 Inr have a: "a = ?n" and m1: "main_cells h1 = (main_cells h)(?n := [])"
      and p1: "map_cells h1 = map_cells h" and n1: "next_addr h1 = Suc ?n"
      and f1: "faults h = None \<longrightarrow> faults h1 = None" by simp_all
    note c2 = make_shared_map_cases[of h1]
    show ?thesis
    proof (cases "make_shared_map h1")
      case (Inl e)
      with p False Inr ah have "r = Inl e" "h' = h1" by (simp_all add: stack_copy_ctor_def)
      with c2 Inl False f1 m1 p1 n1 show ?thesis by (auto simp: unchanged_below_def)
    next
      case (Inr bh)
      obtain b h2 where bh: "bh = (b, h2)" by (cases bh)
      with c2 Inr n1 have b: "b = Suc ?n" and m2: "main_cells h2 = main_cells h1"
        and p2: "map_cells h2 = (map_cells h1)(Suc ?n := [])" and n2: "next_addr h2 = Suc (Suc ?n)"
        and f2: "faults h1 = None \<longrightarrow> faults h2 = None" by simp_all
      let ?B0 = "\<lparr>main_stack = Some ?n, stacks_map = Some (Suc ?n), shareable = True\<rparr>"
      have ub2: "unchanged_below h h2" by (simp add: unchanged_below_def m1 m2 p1 p2 n2)
      obtain rc B hc where cp: "copy (push (Suc n)) A ?B0 (A # others) h2 = (rc, B, hc)"
        by (cases "copy (push (Suc n)) A ?B0 (A # others) h2") auto
      from p False \<open>make_shared_main h = Inr ah\<close> ah Inr bh a b cp
      have res: "(r, h') = (case rc of Inl e \<Rightarrow> (Inl e, hc) | Inr u \<Rightarrow> (Inr B, hc))"
        by (simp add: stack_copy_ctor_def split: sum.splits)
      have priv: "\<forall>x\<in>set (A # others). main_stack x \<noteq> Some ?n"
        using ok others_bound[OF oks] by (auto simp: stack_ok_def split: option.splits)
      have inv0: "cross_inv (main_cells h2 ?n) (map_cells h2 (Suc ?n))" by (simp add: m1 m2 p2)
      have post: "unchanged_below h hc \<and>
                  (case rc of Inl e \<Rightarrow> e = BadAlloc \<and> faults h \<noteq> None
                   | Inr u \<Rightarrow> stack_ok hc B \<and> shareable B \<and> contents B hc = contents A h \<and>
                       (faults h = None \<longrightarrow> faults hc = None) \<and>
                       main_stack B = Some ?n \<and> stacks_map B = Some (Suc ?n))"
      proof (cases "main_stack A")
        case None
        with cp have "rc = Inr ()" "B = ?B0" "hc = h2" by (simp_all add: copy_def)
        with None ub2 f1 f2 inv0 show ?thesis
          by (simp add: stack_ok_def contents_def n2 m1 m2)
      next
        case (Some a0)
        with ok have a0: "a0 < ?n" by (simp add: stack_ok_def)
        from cp Some have cl:
          "copy_loop (push (Suc n)) (rev (main_cells h2 a0)) ?B0 (A # others) h2 = (rc, B, hc)"
          by (simp add: copy_def)
        have mB: "main_stack ?B0 = Some ?n" "stacks_map ?B0 = Some (Suc ?n)" by simp_all
        note cpp = copy_loop_private[OF cl mB priv inv0]
        from a0 have src: "main_cells h2 a0 = main_cells h a0" by (simp add: m1 m2)
        have ubc: "unchanged_below h hc"
          using cpp by (auto simp: unchanged_below_def n2 m1 m2 p1 p2)
        show ?thesis
        proof (cases rc)
          case (Inl e)
          with cpp f1 f2 have "e = BadAlloc" "faults h \<noteq> None" by auto
          with Inl ubc show ?thesis by simp
        next
          case (Inr u)
          from a0 have "a0 \<noteq> ?n" by simp
          with Inr cpp have "map snd (main_cells hc ?n) = map snd (main_cells h a0)"
            by (simp add: src m1 m2 rev_map)
          moreover from cpp Inr f1 f2 have "faults h = None \<longrightarrow> faults hc = None" by simp
          moreover have "stack_ok hc B" using cpp by (simp add: stack_ok_def n2)
          ultimately show ?thesis using Inr ubc cpp Some by (simp add: contents_def)
        qed
      qed
      show ?thesis
      proof (cases rc)
        case (Inl e)
        with res post False show ?thesis by simp
      next
        case (Inr u)
        with res post False show ?thesis by simp
      qed
    qed
  qed
qed

lemma fresh_ok [simp]:
  "stack_ok fresh_heap fresh" "consistent fresh" "contents fresh fresh_heap = []"
  "faults fresh_heap = None"
  by (simp_all add: stack_ok_def consistent_def contents_def fresh_def fresh_heap_def)

lemma stack_ctor_fresh: "stack_ctor empty_heap = (Inr fresh, fresh_heap)"
  by (simp add: stack_ctor_def make_shared_main_def make_shared_map_def set_main_def set_map_def
        empty_heap_def fresh_def fresh_heap_def fun_eq_iff)

lemma remove_first_absent: "filter (\<lambda>e. fst e = k) ys = [] \<Longrightarrow> remove_first k ys = ys"
  by (induction ys) (auto split: if_splits)

lemma length_remove_first:
  "filter (\<lambda>e. fst e = k) ys \<noteq> [] \<Longrightarrow> Suc (length (remove_first k ys)) = length ys"
  by (induction ys) (auto split: if_splits)

lemma abs_mutate_failed: "abs_result m ys = Inl e \<Longrightarrow> abs_mutate m ys = ys"
  by (cases m) (auto simp: abs_result_def abs_mutate_def remove_first_absent split: if_splits)

lemma abs_result_cases:
  "abs_result m ys = Inr () \<or> abs_result m ys = Inl EmptyContainer \<or> abs_result m ys = Inl KeyNotFound"
  by (cases m) (auto simp: abs_result_def)

text \<open>One mutation without allocation failure on a consistent stack.\<close>

lemma mutate_no_faults:
  assumes m: "mutate (Suc (Suc n)) m s others h = (r, s', h')"
    and ok: "stack_ok h s" and oks: "\<forall>x\<in>set others. stack_ok h x"
    and cons: "consistent s" and nf: "faults h = None"
  shows "stack_ok h' s' \<and> consistent s' \<and> (\<forall>x\<in>set others. stack_ok h' x) \<and> faults h' = None \<and>
         r = abs_result m (contents s h) \<and> contents s' h' = abs_mutate m (contents s h)"
proof -
  note mp = mutate_correct[OF m ok oks]
  from mp oks have oks': "\<forall>x\<in>set others. stack_ok h' x"
    by (simp add: mutate_post_def frame_others_def)
  from mp nf have base: "stack_ok h' s'" "faults h' = None" by (simp_all add: mutate_post_def)
  show ?thesis
  proof (cases r)
    case (Inr u)
    with mp base oks' show ?thesis by (simp add: mutate_post_def)
  next
    case (Inl e)
    with mp cons nf have ar: "abs_result m (contents s h) = Inl e"
      and c: "contents s' h' = contents s h"
      and alt: "s' = s \<or> e = BadAlloc"
      by (auto simp: mutate_post_def)
    from ar abs_result_cases[of m "contents s h"] have "e \<noteq> BadAlloc" by auto
    with alt have "s' = s" by simp
    with Inl ar c cons base oks' abs_mutate_failed[OF ar] show ?thesis by simp
  qed
qed

lemma mutate_all_no_faults:
  assumes "mutate_all (Suc (Suc n)) ms s others h = (rs, s', h')"
    and "stack_ok h s" and "\<forall>x\<in>set others. stack_ok h x"
    and "consistent s" and "faults h = None"
  shows "stack_ok h' s' \<and> consistent s' \<and> (\<forall>x\<in>set others. stack_ok h' x) \<and> faults h' = None \<and>
         rs = abs_results ms (contents s h) \<and> contents s' h' = live_after ms (contents s h)"
  using assms
proof (induction ms arbitrary: s h rs)
  case Nil
  then show ?case by simp
next
  case (Cons m ms)
  obtain r s1 h1 where m: "mutate (Suc (Suc n)) m s others h = (r, s1, h1)"
    by (cases "mutate (Suc (Suc n)) m s others h") auto
  obtain rs1 where rest: "mutate_all (Suc (Suc n)) ms s1 others h1 = (rs1, s', h')" and rs: "rs = r # rs1"
    using Cons.prems(1) m by (auto split: prod.splits)
  note one = mutate_no_faults[OF m Cons.prems(2,3,4,5)]
  from one have p: "stack_ok h1 s1" "\<forall>x\<in>set others. stack_ok h1 x" "consistent s1" "faults h1 = None"
    by simp_all
  from Cons.IH[OF rest p] one rs show ?case by simp
qed

lemma length_live_after:
  "length (live_after ms ys) + successful_pops ms (abs_results ms ys) = length ys + pushes ms"
proof (induction ms arbitrary: ys)
  case Nil
  then show ?case by (simp add: successful_pops_def pushes_def)
next
  case (Cons m ms)
  have step: "length (abs_mutate m ys) + (if \<not> is_push m \<and> abs_result m ys = Inr () then 1 else 0)
              = length ys + (if is_push m then 1 else 0)"
    using length_remove_first[of _ ys]
    by (cases m) (auto simp: abs_mutate_def abs_result_def is_push_def remove_first_absent)
  from Cons.IH[of "abs_mutate m ys"] step show ?case
    by (auto simp: successful_pops_def pushes_def split: if_splits)
qed

text \<open>
  C3.  Start from a stack with no entries and run any sequence of \<^verbatim>\<open>push\<close>, \<^verbatim>\<open>pop()\<close> and
  \<^verbatim>\<open>pop(k)\<close> calls without allocation failure.  Then \<^verbatim>\<open>size()\<close> plus the number of pops
  that succeeded is the number of pushes, and the entries are those of the reference run
  \<open>live_after\<close>, in which a push puts its entry in front and each successful \<^verbatim>\<open>pop()\<close>
  removes the front entry: the most recently pushed entry not yet removed, whatever its
  key.  \<^verbatim>\<open>front()\<close> shows that entry.
\<close>

theorem size_is_pushes_minus_pops:
  assumes "stack_ok h s" and "consistent s" and "contents s h = []"
    and "all_ok h others" and "faults h = None"
    and "mutate_all (Suc (Suc n)) ms s others h = (rs, s', h')"
  shows "size_st s' h' + successful_pops ms rs = pushes ms \<and>
         contents s' h' = live_after ms [] \<and>
         front s' h' = (case live_after ms [] of [] \<Rightarrow> Inl EmptyContainer | e # es \<Rightarrow> Inr e)"
proof -
  from assms(4) have oks: "\<forall>x\<in>set others. stack_ok h x" by (simp add: all_ok_def)
  note r = mutate_all_no_faults[OF assms(6,1) oks assms(2,5)]
  from r assms(3) have c: "contents s' h' = live_after ms []" and rs: "rs = abs_results ms []"
    by simp_all
  from r have nf: "faults h' = None" by simp
  from length_live_after[of ms "[]"] c rs nf show ?thesis
    by (simp add: size_contents front_contents)
qed

text \<open>The run push, push, pop, pop, pop (fails), push on a fresh stack.\<close>

theorem size_is_pushes_minus_pops_witness:
  "stack_ok (fresh_heap :: (nat, nat) heap) fresh \<and> consistent fresh \<and>
   contents fresh (fresh_heap :: (nat, nat) heap) = [] \<and>
   all_ok (fresh_heap :: (nat, nat) heap) [] \<and>
   faults (fresh_heap :: (nat, nat) heap) = None \<and>
   (case mutate_all 2 [Push 1 10, Push 2 20, Pop, Pop, Pop, Push 3 30] fresh [] (fresh_heap :: (nat, nat) heap) of
      (rs, s', h') \<Rightarrow>
        size_st s' h' +
          successful_pops [Push (1::nat) (10::nat), Push 2 20, Pop, Pop, Pop, Push 3 30] rs = 3 \<and>
        contents s' h' = [(3, 30)] \<and> front s' h' = Inr (3, 30))"
proof -
  obtain rs s' h' where
    run: "mutate_all (Suc (Suc 0)) [Push 1 10, Push 2 20, Pop, Pop, Pop, Push 3 30] fresh []
            (fresh_heap :: (nat, nat) heap) = (rs, s', h')"
    by (cases "mutate_all (Suc (Suc 0)) [Push 1 10, Push 2 20, Pop, Pop, Pop, Push (3::nat) (30::nat)] fresh []
            (fresh_heap :: (nat, nat) heap)") auto
  have "all_ok (fresh_heap :: (nat, nat) heap) []" by (simp add: all_ok_def)
  from size_is_pushes_minus_pops[OF fresh_ok(1) fresh_ok(2) fresh_ok(3) this fresh_ok(4) run] run
  show ?thesis
    by (simp add: numeral_2_eq_2 pushes_def is_push_def abs_mutate_def all_ok_def
          del: mutate_all.simps)
qed

lemma all_ok_simps [simp]:
  "all_ok h [] = True" "all_ok h (x # xs) = (stack_ok h x \<and> all_ok h xs)"
  by (simp_all add: all_ok_def)

lemma frame_others_observe:
  assumes "frame_others others h h'" and "x \<in> set others" and "stack_ok h x"
  shows "stack_ok h' x \<and> observe x h' = observe x h"
proof -
  from assms have "stack_ok h' x" and d: "deref_main x h' = deref_main x h"
    "deref_map x h' = deref_map x h"
    by (simp_all add: frame_others_def)
  with observe_deref[OF d] show ?thesis by simp
qed

lemma copy_ctor_ok:
  assumes "stack_copy_ctor (Suc n) A others h = (Inr B, h1)"
    and "stack_ok h A" and "all_ok h others"
  shows "stack_ok h1 A \<and> stack_ok h1 B \<and> all_ok h1 others \<and> observe A h1 = observe A h \<and>
         contents B h1 = contents A h"
proof -
  from assms(3) have oks: "\<forall>x\<in>set others. stack_ok h x" by (simp add: all_ok_def)
  from stack_copy_ctor_post[OF assms(1,2) oks]
  have ub: "unchanged_below h h1" and okB: "stack_ok h1 B" and c: "contents B h1 = contents A h"
    by simp_all
  note fr = frame_unchanged[OF ub, of "A # others"]
  from frame_others_observe[OF fr _ assms(2)] have "stack_ok h1 A" "observe A h1 = observe A h"
    by simp_all
  moreover have "\<forall>x\<in>set others. stack_ok h1 x"
    using oks stack_ok_unchanged[OF ub] by blast
  ultimately show ?thesis using okB c by (simp add: all_ok_def)
qed

text \<open>
  C9.  Without allocation failure, \<^verbatim>\<open>push(k, v)\<close> followed by \<^verbatim>\<open>pop()\<close> both succeed and
  leave \<^verbatim>\<open>size\<close>, \<^verbatim>\<open>front\<close>, the key iteration and every \<^verbatim>\<open>count\<close> and \<^verbatim>\<open>front(k)\<close> as
  they were before the push.
\<close>

theorem push_then_pop_restores:
  assumes "stack_ok h s" and "consistent s" and "all_ok h others" and "faults h = None"
    and "push (Suc (Suc n)) k v s others h = (r1, s1, h1)"
    and "pop (Suc (Suc n)) s1 others h1 = (r2, s2, h2)"
  shows "r1 = Inr () \<and> r2 = Inr () \<and> observe s2 h2 = observe s h \<and>
         contents s2 h2 = contents s h"
proof -
  from assms(3) have oks: "\<forall>x\<in>set others. stack_ok h x" by (simp add: all_ok_def)
  from assms(5) have m1: "mutate (Suc (Suc n)) (Push k v) s others h = (r1, s1, h1)"
    by (simp add: mutate_def)
  note a = mutate_no_faults[OF m1 assms(1) oks assms(2,4)]
  from a have p: "stack_ok h1 s1" "\<forall>x\<in>set others. stack_ok h1 x" "consistent s1" "faults h1 = None"
    and c1: "contents s1 h1 = (k, v) # contents s h" and r1: "r1 = Inr ()"
    by (simp_all add: abs_mutate_def abs_result_def)
  from assms(6) have m2: "mutate (Suc (Suc n)) Pop s1 others h1 = (r2, s2, h2)"
    by (simp add: mutate_def)
  note b = mutate_no_faults[OF m2 p]
  from b c1 have q: "stack_ok h2 s2" "consistent s2" and c2: "contents s2 h2 = contents s h"
    and r2: "r2 = Inr ()"
    by (simp_all add: abs_mutate_def abs_result_def)
  from observe_contents[OF q] observe_contents[OF assms(1,2)] c2 r1 r2 show ?thesis by simp
qed

theorem push_then_pop_restores_witness:
  "stack_ok (fresh_heap :: (nat, nat) heap) fresh \<and> consistent fresh \<and>
   all_ok (fresh_heap :: (nat, nat) heap) [] \<and> faults (fresh_heap :: (nat, nat) heap) = None \<and>
   (case push 2 1 10 fresh [] (fresh_heap :: (nat, nat) heap) of
      (r1, s1, h1) \<Rightarrow>
        (case pop 2 s1 [] h1 of
           (r2, s2, h2) \<Rightarrow>
             r1 = Inr () \<and> r2 = Inr () \<and> observe s2 h2 = observe fresh fresh_heap \<and>
             contents s2 h2 = []))"
proof -
  obtain r1 s1 h1 where p: "push (Suc (Suc 0)) 1 10 fresh [] (fresh_heap :: (nat, nat) heap) = (r1, s1, h1)"
    by (cases "push (Suc (Suc 0)) (1::nat) (10::nat) fresh [] (fresh_heap :: (nat, nat) heap)") auto
  obtain r2 s2 h2 where q: "pop (Suc (Suc 0)) s1 [] h1 = (r2, s2, h2)"
    by (cases "pop (Suc (Suc 0)) s1 [] h1") auto
  have a: "all_ok (fresh_heap :: (nat, nat) heap) []" by simp
  from push_then_pop_restores[OF fresh_ok(1) fresh_ok(2) a fresh_ok(4) p q] p q
  show ?thesis by (simp add: numeral_2_eq_2 del: push.simps)
qed

text \<open>
  C10.  Let \<open>A\<close> be well formed with its \<^verbatim>\<open>shareable\<close> flag false.  Without allocation
  failure the copy constructor gives \<open>B\<close> storage allocated by the call, held by no other
  stack, with the entries and observations of \<open>A\<close>; \<open>A\<close> observes what it did; \<open>B\<close> is
  shareable, and a copy constructed from \<open>B\<close> takes \<open>B\<close>'s two handles.
\<close>

theorem copy_of_unshareable_is_private:
  assumes "stack_ok h A" and "consistent A" and "all_ok h others" and "\<not> shareable A"
    and "faults h = None" and "stack_copy_ctor (Suc n) A others h = (r, h')"
  shows "\<exists>B. r = Inr B \<and> main_stack B = Some (next_addr h) \<and>
           stacks_map B = Some (Suc (next_addr h)) \<and>
           main_stack B \<notin> set (map main_stack (A # others)) \<and>
           stacks_map B \<notin> set (map stacks_map (A # others)) \<and>
           shareable B \<and> contents B h' = contents A h \<and> observe B h' = observe A h \<and>
           observe A h' = observe A h \<and>
           stack_copy_ctor (Suc n) B (A # others) h' =
             (Inr \<lparr>main_stack = main_stack B, stacks_map = stacks_map B, shareable = True\<rparr>, h')"
proof -
  from assms(3) have oks: "\<forall>x\<in>set others. stack_ok h x" by (simp add: all_ok_def)
  note post = stack_copy_ctor_post[OF assms(6,1) oks]
  from post assms(4,5) obtain B where r: "r = Inr B" by (cases r) auto
  with post assms(4) have ub: "unchanged_below h h'" and okB: "stack_ok h' B" and sh: "shareable B"
    and c: "contents B h' = contents A h"
    and m: "main_stack B = Some (next_addr h)" "stacks_map B = Some (Suc (next_addr h))"
    by simp_all
  from m have consB: "consistent B" by (simp add: consistent_def)
  have fresh_main: "main_stack x \<noteq> Some (next_addr h)" if "stack_ok h x" for x
    using that by (auto simp: stack_ok_def split: option.splits)
  have fresh_map: "stacks_map x \<noteq> Some (Suc (next_addr h))" if "stack_ok h x" for x
    using that by (auto simp: stack_ok_def split: option.splits)
  have all: "\<forall>x\<in>set (A # others). stack_ok h x" using assms(1) oks by simp
  have nm: "main_stack B \<notin> set (map main_stack (A # others))"
    unfolding m using fresh_main all by fastforce
  have np: "stacks_map B \<notin> set (map stacks_map (A # others))"
    unfolding m using fresh_map all by fastforce
  note fr = frame_unchanged[OF ub, of "[A]"]
  from frame_others_observe[OF fr _ assms(1)] have okA: "stack_ok h' A" and oA: "observe A h' = observe A h"
    by simp_all
  from observe_contents[OF okB consB] observe_contents[OF assms(1,2)] c
  have oB: "observe B h' = observe A h" by simp
  have again: "stack_copy_ctor (Suc n) B (A # others) h' =
             (Inr \<lparr>main_stack = main_stack B, stacks_map = stacks_map B, shareable = True\<rparr>, h')"
    using sh by (simp add: stack_copy_ctor_def)
  from r m nm np sh c oB oA again show ?thesis by blast
qed

text \<open>\<open>A\<close> holds one entry and has handed out a reference through the mutable \<^verbatim>\<open>front()\<close>.\<close>

theorem copy_of_unshareable_is_private_witness:
  "(case push 2 1 10 fresh [] (fresh_heap :: (nat, nat) heap) of
      (r1, s1, h1) \<Rightarrow>
        (case front_mut 1 s1 [] h1 of
           (r2, A, h) \<Rightarrow>
             stack_ok h A \<and> consistent A \<and> all_ok h [] \<and> \<not> shareable A \<and> faults h = None \<and>
             (case stack_copy_ctor 1 A [] h of
                (r, h') \<Rightarrow>
                  (\<exists>B. r = Inr B \<and> main_stack B = Some (next_addr h) \<and> main_stack B \<noteq> main_stack A \<and>
                     shareable B \<and> contents B h' = [(1, 10)] \<and> observe B h' = observe A h))))"
proof -
  obtain r1 s1 h1 where p: "push (Suc (Suc 0)) 1 10 fresh [] (fresh_heap :: (nat, nat) heap) = (r1, s1, h1)"
    by (cases "push (Suc (Suc 0)) (1::nat) (10::nat) fresh [] (fresh_heap :: (nat, nat) heap)") auto
  obtain r2 A h where f: "front_mut (Suc 0) s1 [] h1 = (r2, A, h)"
    by (cases "front_mut (Suc 0) s1 [] h1") auto
  obtain r h' where c: "stack_copy_ctor (Suc 0) A [] h = (r, h')"
    by (cases "stack_copy_ctor (Suc 0) A [] h") auto
  have e: "\<forall>x\<in>set []. stack_ok (fresh_heap :: (nat, nat) heap) x" by simp
  from p have m: "mutate (Suc (Suc 0)) (Push 1 10) fresh [] (fresh_heap :: (nat, nat) heap) = (r1, s1, h1)"
    by (simp add: mutate_def)
  from mutate_no_faults[OF m fresh_ok(1) e fresh_ok(2) fresh_ok(4)]
  have s1: "stack_ok h1 s1" "faults h1 = None" "contents s1 h1 = [(1, 10)]"
    by (simp_all add: abs_mutate_def)
  have e1: "\<forall>x\<in>set []. stack_ok h1 x" by simp
  from front_mut_post[OF f s1(1) e1] s1(2,3)
  have A: "stack_ok h A" "consistent A" "\<not> shareable A" "faults h = None" "contents A h = [(1, 10)]"
    by (cases r2; simp add: kept_def)+
  have a: "all_ok h []" by simp
  from copy_of_unshareable_is_private[OF A(1,2) a A(3,4) c] A p f c
  show ?thesis
    by (auto simp: numeral_2_eq_2 simp del: push.simps)
qed

lemma all_ok_invariant: "all_ok h ss \<Longrightarrow> invariant_holds h ss"
  by (auto simp: all_ok_def invariant_holds_def stack_ok_def split: option.splits)

lemma all_ok_unchanged: "unchanged_below h h' \<Longrightarrow> all_ok h ss \<Longrightarrow> all_ok h' ss"
  using stack_ok_unchanged by (auto simp: all_ok_def)

lemma all_ok_frame: "frame_others ss h h' \<Longrightarrow> all_ok h ss \<Longrightarrow> all_ok h' ss"
  by (auto simp: all_ok_def frame_others_def)

lemma discard_simps [simp]:
  "discard (Inl e) = Inl e" "discard (Inr x) = Inr ()"
  "(discard r = Inl e) = (r = Inl e)"
  by (simp_all add: discard_def split: sum.splits)

lemma count_st_cases:
  assumes "stack_ok h s"
  shows "case count_st k s h of
           Inl e \<Rightarrow> e = BadAlloc \<and> faults h \<noteq> None \<or> e = Undefined \<and> \<not> consistent s
         | Inr c \<Rightarrow> True"
  using assms
  by (auto simp: count_st_def alloc_def deref_map_def consistent_def stack_ok_def
           split: option.splits nat.splits)

lemma front_key_cases:
  assumes ok: "stack_ok h s"
  shows "case front_key k s h of
           Inl e \<Rightarrow> e = BadAlloc \<and> faults h \<noteq> None \<or> e = Undefined \<and> \<not> consistent s \<or>
                    e = KeyNotFound \<and> filter (\<lambda>e. fst e = k) (contents s h) = []
         | Inr v \<Rightarrow> filter (\<lambda>e. fst e = k) (contents s h) \<noteq> []"
proof (cases "main_stack s")
  case None
  with throw_cases[where e=KeyNotFound and h=h] show ?thesis
    by (auto simp: front_key_def contents_def split: prod.splits)
next
  case (Some a)
  show ?thesis
  proof (cases "alloc h")
    case (Inl e)
    with Some alloc_Inl[OF Inl] show ?thesis by (simp add: front_key_def)
  next
    case (Inr h1)
    from alloc_Inr[OF Inr] have ss: "same_store h h1"
      and f1: "faults h = None \<longrightarrow> faults h1 = None" by simp_all
    note ok1 = stack_ok_unchanged[OF same_store_unchanged[OF ss] ok]
    have c1: "contents s h1 = contents s h"
      by (rule contents_unchanged[OF same_store_unchanged[OF ss] ok])
    obtain rk h2 where kt: "key_top k s h1 = (rk, h2)" by (cases "key_top k s h1") auto
    from Some Inr have "front_key k s h = (case key_top k s h1 of (Inl e, h2) \<Rightarrow> Inl e
        | (Inr r, h2) \<Rightarrow> read_ref r h2)"
      by (simp add: front_key_def)
    then have fk: "front_key k s h = (case rk of Inl e \<Rightarrow> Inl e | Inr r \<Rightarrow> read_ref r h2)"
      by (simp only: kt prod.case)
    show ?thesis
    proof (cases "stacks_map s")
      case None
      with Some have nc: "\<not> consistent s" by (simp add: consistent_def)
      from None Some kt have "rk = Inl Undefined" by (simp add: key_top_def)
      with fk nc show ?thesis by simp
    next
      case (Some b)
      from key_top_cases[OF ok1 \<open>main_stack s = Some a\<close> Some, of k] kt c1 fk f1 show ?thesis
        by (cases rk) auto
    qed
  qed
qed

lemma perform_ok:
  assumes "stack_ok h s" and "all_ok h others"
    and "perform (Suc (Suc n)) op s others h = (r, ss', h')"
  shows "all_ok h' ss' \<and> (r = Inl Undefined \<longrightarrow> \<not> consistent s)"
proof -
  from assms(2) have oks: "\<forall>x\<in>set others. stack_ok h x" by (simp add: all_ok_def)
  have mut: "all_ok h' (s' # others) \<and> (r = Inl Undefined \<longrightarrow> \<not> consistent s)"
    if "mutate (Suc (Suc n)) m s others h = (r, s', h')" for m s'
  proof -
    note mp = mutate_correct[OF that assms(1) oks]
    from mp have fr: "frame_others others h h'" and ok': "stack_ok h' s'"
      by (simp_all add: mutate_post_def)
    from all_ok_frame[OF fr assms(2)] ok' have "all_ok h' (s' # others)" by simp
    moreover have "r = Inl Undefined \<longrightarrow> \<not> consistent s"
      using mp abs_result_cases[of m "contents s h"]
      by (auto simp: mutate_post_def)
    ultimately show ?thesis by simp
  qed
  show ?thesis
  proof (cases op)
    case (OpPush k v)
    with assms(3) obtain s' where "push (Suc (Suc n)) k v s others h = (r, s', h')" "ss' = s' # others"
      by (auto simp: perform_def split: prod.splits simp del: push.simps)
    with mut[of "Push k v" s'] show ?thesis by (simp add: mutate_def del: push.simps)
  next
    case OpPop
    with assms(3) obtain s' where "pop (Suc (Suc n)) s others h = (r, s', h')" "ss' = s' # others"
      by (auto simp: perform_def split: prod.splits)
    with mut[of Pop s'] show ?thesis by (simp add: mutate_def)
  next
    case (OpPopKey k)
    with assms(3) obtain s' where "pop_key (Suc (Suc n)) k s others h = (r, s', h')" "ss' = s' # others"
      by (auto simp: perform_def split: prod.splits)
    with mut[of "PopKey k" s'] show ?thesis by (simp add: mutate_def)
  next
    case OpFront
    with assms(3) obtain r0 s' where f: "front_mut (Suc (Suc n)) s others h = (r0, s', h')"
      and res: "ss' = s' # others" "r = discard r0"
      by (auto simp: perform_def split: prod.splits)
    from front_mut_post[OF f assms(1) oks] have k: "kept s others h s' h'" by simp
    then have "all_ok h' (s' # others)" using all_ok_frame[OF _ assms(2)] by (simp add: kept_def)
    with front_mut_post[OF f assms(1) oks] res show ?thesis
      by (cases r0) auto
  next
    case OpFrontConst
    with assms front_cases[of s h] show ?thesis
      by (cases "front s h") (auto simp: perform_def)
  next
    case (OpFrontKey k)
    with assms(3) obtain r0 s' where f: "front_key_mut (Suc (Suc n)) k s others h = (r0, s', h')"
      and res: "ss' = s' # others" "r = discard r0"
      by (auto simp: perform_def split: prod.splits)
    from front_key_mut_post[OF f assms(1) oks] have k: "kept s others h s' h'" by simp
    then have "all_ok h' (s' # others)" using all_ok_frame[OF _ assms(2)] by (simp add: kept_def)
    with front_key_mut_post[OF f assms(1) oks] res show ?thesis
      by (cases r0) auto
  next
    case (OpFrontKeyConst k)
    with assms front_key_cases[OF assms(1), of k] show ?thesis
      by (cases "front_key k s h") (auto simp: perform_def)
  next
    case OpSize
    with assms show ?thesis by (auto simp: perform_def)
  next
    case (OpCount k)
    with assms count_st_cases[OF assms(1), of k] show ?thesis
      by (cases "count_st k s h") (auto simp: perform_def)
  next
    case OpKeys
    with assms show ?thesis by (auto simp: perform_def)
  next
    case OpClear
    with assms show ?thesis by (auto simp: perform_def clear_def stack_ok_def)
  next
    case OpNew
    obtain r0 h0 where c: "stack_ctor h = (r0, h0)" by (cases "stack_ctor h") auto
    note sc = stack_ctor_cases[of h]
    show ?thesis
    proof (cases r0)
      case (Inl e)
      with c sc OpNew assms(3) have "r = Inl BadAlloc" "ss' = s # others" "unchanged_below h h'"
        by (auto simp: perform_def)
      with assms(1,2) all_ok_unchanged[of h h' "s # others"] show ?thesis by simp
    next
      case (Inr t)
      with c sc OpNew assms(3) have res: "r = Inr ()" "ss' = t # s # others" "h' = h0"
        and t: "t = \<lparr>main_stack = Some (next_addr h), stacks_map = Some (Suc (next_addr h)), shareable = True\<rparr>"
        and mc: "main_cells h0 = (main_cells h)(next_addr h := [])"
        and pc: "map_cells h0 = (map_cells h)(Suc (next_addr h) := [])"
        and na: "next_addr h0 = Suc (Suc (next_addr h))"
        by (auto simp: perform_def)
      have ub: "unchanged_below h h0" by (simp add: unchanged_below_def mc pc na)
      have "stack_ok h0 t" by (simp add: stack_ok_def t mc pc na)
      with res assms(1,2) all_ok_unchanged[OF ub, of "s # others"] show ?thesis by simp
    qed
  next
    case OpCopy
    obtain r0 h0 where c: "stack_copy_ctor (Suc (Suc n)) s others h = (r0, h0)"
      by (cases "stack_copy_ctor (Suc (Suc n)) s others h") auto
    from stack_copy_ctor_post[OF c assms(1) oks] have ub: "unchanged_below h h0" by simp
    note ok0 = all_ok_unchanged[OF ub, of "s # others"]
    show ?thesis
    proof (cases r0)
      case (Inl e)
      with c OpCopy assms(3) have "r = Inl e" "ss' = s # others" "h' = h0"
        by (auto simp: perform_def)
      moreover from stack_copy_ctor_post[OF c assms(1) oks] Inl have "e = BadAlloc" by simp
      ultimately show ?thesis using ok0 assms(1,2) by simp
    next
      case (Inr t)
      with c OpCopy assms(3) have "r = Inr ()" "ss' = t # s # others" "h' = h0"
        by (auto simp: perform_def)
      moreover from stack_copy_ctor_post[OF c assms(1) oks] Inr have "stack_ok h0 t" by simp
      ultimately show ?thesis using ok0 assms(1,2) by simp
    qed
  next
    case OpMove
    with assms show ?thesis
      by (auto simp: perform_def stack_move_ctor_def stack_ok_def split: option.splits)
  next
    case (OpAssign i)
    show ?thesis
    proof (cases "i < length others")
      case False
      with OpAssign assms show ?thesis by (auto simp: perform_def)
    next
      case True
      let ?src = "others ! i" and ?rest = "s # take i others @ drop (Suc i) others"
      obtain r0 h0 where c: "stack_copy_ctor (Suc (Suc n)) ?src ?rest h = (r0, h0)"
        by (cases "stack_copy_ctor (Suc (Suc n)) ?src ?rest h") auto
      from True oks have oksrc: "stack_ok h ?src" by simp
      have okrest: "\<forall>x\<in>set ?rest. stack_ok h x"
        using oks assms(1) by (auto dest: in_set_takeD in_set_dropD)
      note post = stack_copy_ctor_post[OF c oksrc okrest]
      from post have ub: "unchanged_below h h0" by simp
      note ok0 = all_ok_unchanged[OF ub, of "s # others"]
      show ?thesis
      proof (cases r0)
        case (Inl e)
        with c OpAssign True assms(3) have "r = Inl e" "ss' = s # others" "h' = h0"
          by (auto simp: perform_def)
        moreover from post Inl have "e = BadAlloc" by simp
        ultimately show ?thesis using ok0 assms(1,2) by simp
      next
        case (Inr t)
        with c OpAssign True assms(3) have res: "r = Inr ()" "ss' = assign s t # others" "h' = h0"
          by (auto simp: perform_def)
        from post Inr have "stack_ok h0 t" by simp
        then have "stack_ok h0 (assign s t)"
          by (simp add: assign_def swap_st_def stack_ok_def split: option.splits)
        with res ok0 assms(1,2) show ?thesis by simp
      qed
    qed
  qed
qed

text \<open>
  C5.  Let every live stack be well formed: no storage, or a list and a map that satisfy
  the cross-structure invariant (\<open>cross_inv\<close>: the positions reachable from the map are
  the nodes of the list with the same multiplicity, a key is in the map exactly when an
  entry carries it, and each key's stack is that key's positions, most recent first), or
  the list-without-map state a failed allocation can leave.  After any public operation
  on any of them, whether it returns or throws and whatever allocation fails, every live
  stack is well formed again, so every list and map pair satisfies the invariant.  The
  model answers \<open>Undefined\<close> only for a stack in the list-without-map state.
\<close>

theorem invariant_preserved:
  assumes "stack_ok h s" and "all_ok h others"
    and "perform (Suc (Suc n)) op s others h = (r, ss', h')"
  shows "all_ok h' ss' \<and> invariant_holds h' ss' \<and> (r = Inl Undefined \<longrightarrow> \<not> consistent s)"
  using perform_ok[OF assms] all_ok_invariant[of h' ss'] by simp

text \<open>An allocation fails while the storage shared with a copy is being privatised.\<close>

theorem invariant_preserved_witness:
  "stack_ok ((fresh_heap :: (nat, nat) heap)\<lparr>faults := Some 1\<rparr>) fresh \<and>
   all_ok ((fresh_heap :: (nat, nat) heap)\<lparr>faults := Some 1\<rparr>) [fresh] \<and>
   (case perform (Suc (Suc 0)) (OpPush 1 10) fresh [fresh]
           ((fresh_heap :: (nat, nat) heap)\<lparr>faults := Some 1\<rparr>) of
      (r, ss', h') \<Rightarrow> all_ok h' ss' \<and> invariant_holds h' ss')"
proof -
  let ?h = "(fresh_heap :: (nat, nat) heap)\<lparr>faults := Some 1\<rparr>"
  have ok: "stack_ok ?h fresh" by (simp add: stack_ok_def fresh_def fresh_heap_def)
  then have oks: "all_ok ?h [fresh]" by simp
  obtain r ss' h' where p: "perform (Suc (Suc 0)) (OpPush 1 10) fresh [fresh] ?h = (r, ss', h')"
    by (cases "perform (Suc (Suc 0)) (OpPush (1::nat) (10::nat)) fresh [fresh] ?h") auto
  from invariant_preserved[OF ok oks p] have "all_ok h' ss' \<and> invariant_holds h' ss'" by simp
  with ok oks show ?thesis unfolding p prod.case by simp
qed

lemma perform_all_ok:
  assumes "perform_all (Suc (Suc n)) steps ss h = (ss', h')" and "all_ok h ss"
  shows "all_ok h' ss'"
  using assms
proof (induction steps arbitrary: ss h)
  case Nil
  then show ?case by simp
next
  case (Cons step steps)
  show ?case
  proof (cases "fst step < length ss")
    case False
    with Cons.prems have "perform_all (Suc (Suc n)) steps ss h = (ss', h')" by simp
    from Cons.IH[OF this Cons.prems(2)] show ?thesis .
  next
    case True
    let ?s = "ss ! fst step" and ?rest = "take (fst step) ss @ drop (Suc (fst step)) ss"
    obtain r ss1 h1 where p: "perform (Suc (Suc n)) (snd step) ?s ?rest h = (r, ss1, h1)"
      by (cases "perform (Suc (Suc n)) (snd step) ?s ?rest h") auto
    from True Cons.prems(2) have oks: "stack_ok h ?s" by (simp add: all_ok_def)
    have okr: "all_ok h ?rest"
      using Cons.prems(2) by (auto simp: all_ok_def dest: in_set_takeD in_set_dropD)
    from perform_ok[OF oks okr p] have ok1: "all_ok h1 ss1" by simp
    from Cons.prems(1) True p have "perform_all (Suc (Suc n)) steps ss1 h1 = (ss', h')" by simp
    from Cons.IH[OF this ok1] show ?thesis .
  qed
qed

lemma stack_ctor_ok:
  assumes "stack_ctor h0 = (Inr s, h)"
  shows "stack_ok h s \<and> consistent s \<and> contents s h = []"
  using stack_ctor_cases[of h0] assms
  by (simp add: stack_ok_def consistent_def contents_def cross_inv_def)

text \<open>
  C8.  Take a stack built by the default constructor and any program of public operations
  (\<^verbatim>\<open>push\<close>, \<^verbatim>\<open>pop\<close>, \<^verbatim>\<open>pop(k)\<close>, the accessors, \<^verbatim>\<open>clear\<close>, construction, copying, moving,
  assignment) on it and on the stacks the program creates, under any fault plan.  For every
  stack live at the end, iterating from \<^verbatim>\<open>cbegin()\<close> to \<^verbatim>\<open>cend()\<close> yields the keys that some
  entry of the stack carries, each once, in strictly ascending order: the sorted list of
  the set of keys present, whatever the order of the pushes.
\<close>

theorem keys_ascending_distinct:
  assumes "stack_ctor h0 = (Inr s, h)"
    and "perform_all (Suc (Suc n)) steps [s] h = (ss', h')"
    and "x \<in> set ss'"
  shows "keys x h' = sorted_list_of_set (fst ` set (contents x h')) \<and>
         sorted_wrt (<) (keys x h') \<and> set (keys x h') = fst ` set (contents x h')"
proof -
  from stack_ctor_ok[OF assms(1)] have "all_ok h [s]" by simp
  from perform_all_ok[OF assms(2) this] assms(3) have ok: "stack_ok h' x" by (simp add: all_ok_def)
  have k: "keys x h' = sorted_list_of_set (fst ` set (contents x h'))"
    by (rule keys_contents[OF ok])
  let ?X = "fst ` set (contents x h')"
  have f: "finite ?X" by simp
  have sd: "sorted (sorted_list_of_set ?X) \<and> distinct (sorted_list_of_set ?X)"
    by (simp only: sorted_list_of_set.sorted_sorted_key_list_of_set
          sorted_list_of_set.distinct_sorted_key_list_of_set simp_thms)
  then have ss: "sorted_wrt (<) (sorted_list_of_set ?X)" by (simp only: strict_sorted_iff)
  have st: "set (sorted_list_of_set ?X) = ?X"
    by (rule sorted_list_of_set.set_sorted_key_list_of_set[OF f])
  from k ss st show ?thesis by (simp only: simp_thms)
qed

text \<open>
  Pushing the keys "b", "a", "b" gives the iteration "a", "b".  Pushing "a", "c", "b",
  copying the stack and calling \<^verbatim>\<open>pop("a")\<close> on the copy gives "b", "c" for the copy and
  "a", "b", "c" for the original.
\<close>

theorem keys_ascending_distinct_witness:
  "stack_ctor (empty_heap :: (string, nat) heap) = (Inr fresh, fresh_heap) \<and>
   (case perform_all (Suc (Suc 0)) [(0, OpPush ''b'' 1), (0, OpPush ''a'' 2), (0, OpPush ''b'' 3)]
           [fresh] (fresh_heap :: (string, nat) heap) of
      (ss', h') \<Rightarrow>
        map (\<lambda>x. keys x h') ss' = [[''a'', ''b'']] \<and>
        map (\<lambda>x. keys x h') ss' = map (\<lambda>x. sorted_list_of_set (fst ` set (contents x h'))) ss') \<and>
   (case perform_all (Suc (Suc 0))
           [(0, OpPush ''a'' 1), (0, OpPush ''c'' 2), (0, OpPush ''b'' 3), (0, OpCopy),
            (0, OpPopKey ''a'')]
           [fresh] (fresh_heap :: (string, nat) heap) of
      (ss', h') \<Rightarrow>
        map (\<lambda>x. keys x h') ss' = [[''b'', ''c''], [''a'', ''b'', ''c'']] \<and>
        map (\<lambda>x. keys x h') ss' = map (\<lambda>x. sorted_list_of_set (fst ` set (contents x h'))) ss')"
proof -
  let ?p1 = "[(0, OpPush ''b'' 1), (0, OpPush ''a'' 2), (0, OpPush ''b'' (3::nat))]"
  let ?p2 = "[(0, OpPush ''a'' 1), (0, OpPush ''c'' 2), (0, OpPush ''b'' (3::nat)), (0, OpCopy),
              (0, OpPopKey ''a'')]"
  note c = stack_ctor_fresh[where ?'a = string and ?'b = nat]
  obtain ss1 h1 where
    run1: "perform_all (Suc (Suc 0)) ?p1 [fresh] (fresh_heap :: (string, nat) heap) = (ss1, h1)"
    by (cases "perform_all (Suc (Suc 0)) ?p1 [fresh] (fresh_heap :: (string, nat) heap)") auto
  obtain ss2 h2 where
    run2: "perform_all (Suc (Suc 0)) ?p2 [fresh] (fresh_heap :: (string, nat) heap) = (ss2, h2)"
    by (cases "perform_all (Suc (Suc 0)) ?p2 [fresh] (fresh_heap :: (string, nat) heap)") auto
  have ev1: "(case perform_all (Suc (Suc 0)) ?p1 [fresh] (fresh_heap :: (string, nat) heap) of
                (ss', h') \<Rightarrow> map (\<lambda>x. keys x h') ss' = [[''a'', ''b'']])"
    by code_simp
  have ev2: "(case perform_all (Suc (Suc 0)) ?p2 [fresh] (fresh_heap :: (string, nat) heap) of
                (ss', h') \<Rightarrow> map (\<lambda>x. keys x h') ss' = [[''b'', ''c''], [''a'', ''b'', ''c'']])"
    by code_simp
  from ev1 have k1: "map (\<lambda>x. keys x h1) ss1 = [[''a'', ''b'']]"
    unfolding run1 prod.case .
  from ev2 have k2: "map (\<lambda>x. keys x h2) ss2 = [[''b'', ''c''], [''a'', ''b'', ''c'']]"
    unfolding run2 prod.case .
  have s1: "map (\<lambda>x. keys x h1) ss1 = map (\<lambda>x. sorted_list_of_set (fst ` set (contents x h1))) ss1"
    using keys_ascending_distinct[OF c run1] by (simp only: map_eq_conv) blast
  have s2: "map (\<lambda>x. keys x h2) ss2 = map (\<lambda>x. sorted_list_of_set (fst ` set (contents x h2))) ss2"
    using keys_ascending_distinct[OF c run2] by (simp only: map_eq_conv) blast
  show ?thesis unfolding run1 run2 prod.case using c k1 k2 s1 s2 by blast
qed

lemma size_zero_iff: "size_st s h = 0 \<longleftrightarrow> contents s h = []"
  by (simp add: size_contents)

lemma count_zero_iff:
  assumes "stack_ok h s" and "consistent s"
  shows "count_st k s (no_faults h) = Inr 0 \<longleftrightarrow> filter (\<lambda>e. fst e = k) (contents s h) = []"
  using count_contents[of "no_faults h" s k] assms by simp

text \<open>
  C7.  On a well-formed stack that has both or neither of its handles: \<^verbatim>\<open>pop()\<close> and both
  \<^verbatim>\<open>front()\<close> throw the empty-container error only when \<^verbatim>\<open>size()\<close> is 0, and always then
  unless the allocation of the exception's message fails, which throws \<^verbatim>\<open>bad_alloc\<close>
  instead; no other operation throws it.  \<^verbatim>\<open>pop(k)\<close> and both \<^verbatim>\<open>front(k)\<close> throw the
  key-not-found error only when \<^verbatim>\<open>count(k)\<close> is 0, and always then unless an allocation
  fails first; no other operation throws it.  Every other failure of any public operation is
  \<^verbatim>\<open>bad_alloc\<close> under a fault plan that makes an allocation fail.  So when no allocation
  fails, each error is thrown exactly when its condition holds.  A failure is the result of
  the call that caused it.
\<close>

theorem failures_characterised:
  assumes "stack_ok h s" and "consistent s" and "all_ok h others"
    and "perform (Suc (Suc n)) op s others h = (r, ss', h')"
  shows "(r = Inl EmptyContainer \<longrightarrow> needs_entries op \<and> size_st s h = 0) \<and>
         (needs_entries op \<and> size_st s h = 0 \<longrightarrow>
              r = Inl EmptyContainer \<or> r = Inl BadAlloc \<and> faults h \<noteq> None) \<and>
         (r = Inl KeyNotFound \<longrightarrow> (\<exists>k. needs_key op k \<and> count_st k s (no_faults h) = Inr 0)) \<and>
         (\<forall>k. needs_key op k \<and> count_st k s (no_faults h) = Inr 0 \<longrightarrow>
              r = Inl KeyNotFound \<or> r = Inl BadAlloc \<and> faults h \<noteq> None) \<and>
         (\<forall>e. r = Inl e \<longrightarrow>
              e = EmptyContainer \<or> e = KeyNotFound \<or> e = BadAlloc \<and> faults h \<noteq> None) \<and>
         (faults h = None \<longrightarrow>
              (r = Inl EmptyContainer) = (needs_entries op \<and> size_st s h = 0) \<and>
              (r = Inl KeyNotFound) = (\<exists>k. needs_key op k \<and> count_st k s (no_faults h) = Inr 0))"
proof -
  from assms(3) have oks: "\<forall>x\<in>set others. stack_ok h x" by (simp add: all_ok_def)
  note cz = count_zero_iff[OF assms(1,2)]
  let ?ys = "contents s h"
  let ?P = "\<lambda>op r.
         (r = Inl EmptyContainer \<longrightarrow> needs_entries op \<and> ?ys = []) \<and>
         (needs_entries op \<and> ?ys = [] \<longrightarrow>
              r = Inl EmptyContainer \<or> r = Inl BadAlloc \<and> faults h \<noteq> None) \<and>
         (r = Inl KeyNotFound \<longrightarrow> (\<exists>k. needs_key op k \<and> filter (\<lambda>e. fst e = k) ?ys = [])) \<and>
         (\<forall>k. needs_key op k \<and> filter (\<lambda>e. fst e = k) ?ys = [] \<longrightarrow>
              r = Inl KeyNotFound \<or> r = Inl BadAlloc \<and> faults h \<noteq> None) \<and>
         (\<forall>e. r = Inl e \<longrightarrow>
              e = EmptyContainer \<or> e = KeyNotFound \<or> e = BadAlloc \<and> faults h \<noteq> None)"
  have mut: "(case r of Inr u \<Rightarrow> abs_result m ?ys = Inr ()
               | Inl e \<Rightarrow> abs_result m ?ys = Inl e \<or> e = BadAlloc \<and> faults h \<noteq> None)"
    if "mutate (Suc (Suc n)) m s others h = (r, s', h')" for m s'
    using mutate_correct[OF that assms(1) oks] assms(2)
    by (cases r) (auto simp: mutate_post_def)
  have P: "?P op r"
  proof (cases op)
    case (OpPush k v)
    with assms(4) obtain s' where "push (Suc (Suc n)) k v s others h = (r, s', h')"
      by (auto simp: perform_def split: prod.splits simp del: push.simps)
    then have "mutate (Suc (Suc n)) (Push k v) s others h = (r, s', h')" by (simp add: mutate_def)
    from mut[OF this] OpPush show ?thesis
      by (cases r) (auto simp: abs_result_def needs_entries_def needs_key_def)
  next
    case OpPop
    with assms(4) obtain s' where p: "pop (Suc (Suc n)) s others h = (r, s', h')"
      by (auto simp: perform_def split: prod.splits)
    then have "mutate (Suc (Suc n)) Pop s others h = (r, s', h')" by (simp add: mutate_def)
    from mut[OF this] OpPop show ?thesis
      by (cases r) (auto simp: abs_result_def needs_entries_def needs_key_def split: if_splits)
  next
    case (OpPopKey k)
    with assms(4) obtain s' where "pop_key (Suc (Suc n)) k s others h = (r, s', h')"
      by (auto simp: perform_def split: prod.splits)
    then have "mutate (Suc (Suc n)) (PopKey k) s others h = (r, s', h')" by (simp add: mutate_def)
    from mut[OF this] OpPopKey show ?thesis
      by (cases r) (auto simp: abs_result_def needs_entries_def needs_key_def split: if_splits)
  next
    case OpFront
    with assms(4) obtain r0 s' where f: "front_mut (Suc (Suc n)) s others h = (r0, s', h')"
      and res: "r = discard r0"
      by (auto simp: perform_def split: prod.splits)
    from front_mut_post[OF f assms(1) oks] res OpFront show ?thesis
      by (cases r0) (auto simp: needs_entries_def needs_key_def)
  next
    case OpFrontConst
    with assms(4) have "r = discard (front s h)" by (auto simp: perform_def)
    with front_cases[of s h] OpFrontConst show ?thesis
      by (cases "front s h") (auto simp: needs_entries_def needs_key_def)
  next
    case (OpFrontKey k)
    with assms(4) obtain r0 s' where f: "front_key_mut (Suc (Suc n)) k s others h = (r0, s', h')"
      and res: "r = discard r0"
      by (auto simp: perform_def split: prod.splits)
    from front_key_mut_post[OF f assms(1) oks] res OpFrontKey assms(2) show ?thesis
      by (cases r0) (auto simp: needs_entries_def needs_key_def)
  next
    case (OpFrontKeyConst k)
    with assms(4) have "r = discard (front_key k s h)" by (auto simp: perform_def)
    with front_key_cases[OF assms(1), of k] OpFrontKeyConst assms(2) show ?thesis
      by (cases "front_key k s h") (auto simp: needs_entries_def needs_key_def)
  next
    case OpSize
    with assms(4) show ?thesis by (auto simp: perform_def needs_entries_def needs_key_def)
  next
    case (OpCount k)
    with assms(4) have "r = discard (count_st k s h)" by (auto simp: perform_def)
    with count_st_cases[OF assms(1), of k] OpCount assms(2) show ?thesis
      by (cases "count_st k s h") (auto simp: needs_entries_def needs_key_def)
  next
    case OpKeys
    with assms(4) show ?thesis by (auto simp: perform_def needs_entries_def needs_key_def)
  next
    case OpClear
    with assms(4) show ?thesis by (auto simp: perform_def needs_entries_def needs_key_def)
  next
    case OpNew
    with assms(4) stack_ctor_cases[of h] show ?thesis
      by (cases "stack_ctor h"; cases "fst (stack_ctor h)")
         (auto simp: perform_def needs_entries_def needs_key_def)
  next
    case OpCopy
    obtain r0 h0 where c: "stack_copy_ctor (Suc (Suc n)) s others h = (r0, h0)"
      by (cases "stack_copy_ctor (Suc (Suc n)) s others h") auto
    from stack_copy_ctor_post[OF c assms(1) oks] c OpCopy assms(4) show ?thesis
      by (cases r0) (auto simp: perform_def needs_entries_def needs_key_def)
  next
    case OpMove
    with assms(4) show ?thesis
      by (auto simp: perform_def needs_entries_def needs_key_def split: prod.splits)
  next
    case (OpAssign i)
    show ?thesis
    proof (cases "i < length others")
      case False
      with OpAssign assms(4) show ?thesis by (auto simp: perform_def needs_entries_def needs_key_def)
    next
      case True
      let ?src = "others ! i" and ?rest = "s # take i others @ drop (Suc i) others"
      obtain r0 h0 where c: "stack_copy_ctor (Suc (Suc n)) ?src ?rest h = (r0, h0)"
        by (cases "stack_copy_ctor (Suc (Suc n)) ?src ?rest h") auto
      from True oks have oksrc: "stack_ok h ?src" by simp
      have okrest: "\<forall>x\<in>set ?rest. stack_ok h x"
        using oks assms(1) by (auto dest: in_set_takeD in_set_dropD)
      from stack_copy_ctor_post[OF c oksrc okrest] c OpAssign True assms(4) show ?thesis
        by (cases r0) (auto simp: perform_def needs_entries_def needs_key_def)
    qed
  qed
  from P have Q: "faults h = None \<longrightarrow>
              (r = Inl EmptyContainer) = (needs_entries op \<and> ?ys = []) \<and>
              (r = Inl KeyNotFound) = (\<exists>k. needs_key op k \<and> filter (\<lambda>e. fst e = k) ?ys = [])"
    by blast
  from P Q show ?thesis unfolding size_zero_iff cz by blast
qed

text \<open>
  \<^verbatim>\<open>pop()\<close> and \<^verbatim>\<open>pop(5)\<close> on a fresh stack, and \<^verbatim>\<open>pop()\<close> on it when the message of the
  exception cannot be allocated.
\<close>

theorem failures_characterised_witness:
  "stack_ok (fresh_heap :: (nat, nat) heap) fresh \<and> consistent fresh \<and>
   all_ok (fresh_heap :: (nat, nat) heap) [] \<and>
   fst (perform (Suc (Suc 0)) OpPop fresh [] (fresh_heap :: (nat, nat) heap)) = Inl EmptyContainer \<and>
   fst (perform (Suc (Suc 0)) (OpPopKey 5) fresh [] (fresh_heap :: (nat, nat) heap)) = Inl KeyNotFound \<and>
   fst (perform (Suc (Suc 0)) OpPop fresh [] ((fresh_heap :: (nat, nat) heap)\<lparr>faults := Some 0\<rparr>))
     = Inl BadAlloc"
proof -
  have a: "all_ok (fresh_heap :: (nat, nat) heap) []" by simp
  obtain r1 ss1 h1 where p1: "perform (Suc (Suc 0)) OpPop fresh [] (fresh_heap :: (nat, nat) heap) = (r1, ss1, h1)"
    by (cases "perform (Suc (Suc 0)) OpPop fresh [] (fresh_heap :: (nat, nat) heap)") auto
  obtain r2 ss2 h2 where p2: "perform (Suc (Suc 0)) (OpPopKey 5) fresh [] (fresh_heap :: (nat, nat) heap) = (r2, ss2, h2)"
    by (cases "perform (Suc (Suc 0)) (OpPopKey (5::nat)) fresh [] (fresh_heap :: (nat, nat) heap)") auto
  have z: "size_st fresh (fresh_heap :: (nat, nat) heap) = 0" by (simp add: size_contents)
  have c: "count_st (5::nat) fresh (no_faults (fresh_heap :: (nat, nat) heap)) = Inr 0"
    by (simp add: count_zero_iff)
  from failures_characterised[OF fresh_ok(1) fresh_ok(2) a p1] z
  have 1: "r1 = Inl EmptyContainer" by (simp add: needs_entries_def)
  from failures_characterised[OF fresh_ok(1) fresh_ok(2) a p2] c
  have 2: "r2 = Inl KeyNotFound" by (auto simp: needs_key_def)
  have 3: "fst (perform (Suc (Suc 0)) OpPop fresh []
                  ((fresh_heap :: (nat, nat) heap)\<lparr>faults := Some 0\<rparr>)) = Inl BadAlloc"
    by (simp add: perform_def pop_def throw_invalid_argument_def alloc_def deref_main_def
          fresh_def fresh_heap_def)
  from 1 2 3 p1 p2 a show ?thesis by simp
qed

lemma filter_remove_first_same:
  "filter (\<lambda>e. fst e = k) (remove_first k ys) = tl (filter (\<lambda>e. fst e = k) ys)"
  by (induction ys) auto

lemma filter_remove_first_other:
  "filter (\<lambda>e. fst e \<noteq> k) (remove_first k ys) = filter (\<lambda>e. fst e \<noteq> k) ys"
  by (induction ys) auto

lemma front_key_mut_no_faults:
  assumes f: "front_key_mut (Suc (Suc n)) k s others h = (r, s', h')"
    and ok: "stack_ok h s" and oks: "\<forall>x\<in>set others. stack_ok h x"
    and cons: "consistent s" and nf: "faults h = None"
  shows "stack_ok h' s' \<and> consistent s' \<and> (\<forall>x\<in>set others. stack_ok h' x) \<and> faults h' = None \<and>
         contents s' h' = contents s h \<and>
         (case filter (\<lambda>e. fst e = k) (contents s h) of
            [] \<Rightarrow> r = Inl KeyNotFound
          | e # es \<Rightarrow> \<exists>ref. r = Inr ref \<and> read_ref ref h' = Inr (snd e))"
proof -
  note post = front_key_mut_post[OF f ok oks]
  from post nf have k: "stack_ok h' s'" "frame_others others h h'" "contents s' h' = contents s h"
    "faults h' = None"
    by (simp_all add: kept_def)
  from k(2) oks have oks': "\<forall>x\<in>set others. stack_ok h' x" by (simp add: frame_others_def)
  show ?thesis
  proof (cases r)
    case (Inr v)
    with post k oks' show ?thesis by (auto split: list.splits)
  next
    case (Inl e)
    with post cons nf have e: "e = KeyNotFound" and em: "filter (\<lambda>e. fst e = k) (contents s h) = []"
      and rb: "rolled_back s h e s' h'"
      by auto
    from rb e have "s' = s" by (simp add: rolled_back_def)
    with Inl e em k oks' cons show ?thesis by simp
  qed
qed

text \<open>
  C6.  Without allocation failure, the values that successive \<^verbatim>\<open>front(k)\<close>, \<^verbatim>\<open>pop(k)\<close>
  pairs read are those of the entries with key \<open>k\<close>, most recently pushed first; the
  entries removed are exactly those, and the entries of every other key stay, in their
  order.
\<close>

theorem per_key_lifo:
  assumes "stack_ok h s" and "consistent s" and "all_ok h others" and "faults h = None"
    and "drain_key (Suc (Suc n)) i k s others h = (vs, s', h')"
  shows "vs = map snd (take i (filter (\<lambda>e. fst e = k) (contents s h))) \<and>
         filter (\<lambda>e. fst e = k) (contents s' h') = drop i (filter (\<lambda>e. fst e = k) (contents s h)) \<and>
         filter (\<lambda>e. fst e \<noteq> k) (contents s' h') = filter (\<lambda>e. fst e \<noteq> k) (contents s h)"
proof -
  from assms(3) have oks: "\<forall>x\<in>set others. stack_ok h x" by (simp add: all_ok_def)
  from assms(5,1,2,4) oks show ?thesis
  proof (induction i arbitrary: s h vs)
    case 0
    then show ?case by simp
  next
    case (Suc i)
    let ?f = "filter (\<lambda>e. fst e = k) (contents s h)"
    obtain r s1 h1 where f: "front_key_mut (Suc (Suc n)) k s others h = (r, s1, h1)"
      by (cases "front_key_mut (Suc (Suc n)) k s others h") auto
    note a = front_key_mut_no_faults[OF f Suc.prems(2) Suc.prems(5) Suc.prems(3) Suc.prems(4)]
    show ?case
    proof (cases ?f)
      case Nil
      with a have "r = Inl KeyNotFound" by simp
      with Suc.prems(1) f have "vs = []" "s' = s1" "h' = h1" by simp_all
      with a Nil show ?thesis by simp
    next
      case (Cons e es)
      with a obtain ref where r: "r = Inr ref" and rd: "read_ref ref h1 = Inr (snd e)" by auto
      obtain r2 s2 h2 where p: "pop_key (Suc (Suc n)) k s1 others h1 = (r2, s2, h2)"
        by (cases "pop_key (Suc (Suc n)) k s1 others h1") auto
      then have m: "mutate (Suc (Suc n)) (PopKey k) s1 others h1 = (r2, s2, h2)"
        by (simp add: mutate_def)
      from a have p1: "stack_ok h1 s1" "\<forall>x\<in>set others. stack_ok h1 x" "consistent s1" "faults h1 = None"
        and c1: "contents s1 h1 = contents s h" by simp_all
      note b = mutate_no_faults[OF m p1]
      from b c1 have p2: "stack_ok h2 s2" "consistent s2" "faults h2 = None" "\<forall>x\<in>set others. stack_ok h2 x"
        and c2: "contents s2 h2 = remove_first k (contents s h)"
        by (simp_all add: abs_mutate_def)
      obtain vs3 where d: "drain_key (Suc (Suc n)) i k s2 others h2 = (vs3, s', h')" and vs: "vs = snd e # vs3"
        using Suc.prems(1) f r rd p by (auto split: prod.splits)
      from Suc.IH[OF d p2] c2 vs Cons show ?thesis
        by (simp add: filter_remove_first_same filter_remove_first_other drop_Suc)
    qed
  qed
qed

text \<open>Two entries with key 1, one with key 2 between them; three rounds on key 1.\<close>

theorem per_key_lifo_witness:
  "(case mutate_all (Suc (Suc 0)) [Push 1 10, Push 2 20, Push 1 30] fresh [] (fresh_heap :: (nat, nat) heap) of
      (rs, s, h) \<Rightarrow>
        stack_ok h s \<and> consistent s \<and> all_ok h [] \<and> faults h = None \<and>
        contents s h = [(1, 30), (2, 20), (1, 10)] \<and>
        (case drain_key (Suc (Suc 0)) 3 1 s [] h of
           (vs, s', h') \<Rightarrow> vs = [30, 10] \<and> contents s' h' = [(2, 20)]))"
proof -
  obtain rs s h where
    run: "mutate_all (Suc (Suc 0)) [Push 1 10, Push 2 20, Push 1 30] fresh []
            (fresh_heap :: (nat, nat) heap) = (rs, s, h)"
    by (cases "mutate_all (Suc (Suc 0)) [Push (1::nat) (10::nat), Push 2 20, Push 1 30] fresh []
            (fresh_heap :: (nat, nat) heap)") auto
  have "\<forall>x\<in>set []. stack_ok (fresh_heap :: (nat, nat) heap) x" by simp
  from mutate_all_no_faults[OF run fresh_ok(1) this fresh_ok(2) fresh_ok(4)]
  have ok: "stack_ok h s" "consistent s" "faults h = None"
    and c: "contents s h = [(1, 30), (2, 20), (1, 10)]"
    by (simp_all add: abs_mutate_def)
  have a: "all_ok h []" by simp
  obtain vs s' h' where d: "drain_key (Suc (Suc 0)) 3 1 s [] h = (vs, s', h')"
    by (cases "drain_key (Suc (Suc 0)) 3 1 s [] h") auto
  from per_key_lifo[OF ok(1,2) a ok(3) d] c
  have v: "vs = [30, 10]" and f1: "filter (\<lambda>e. fst e = 1) (contents s' h') = []"
    and f2: "filter (\<lambda>e. fst e \<noteq> 1) (contents s' h') = [(2, 20)]"
    by simp_all
  from f1 have "filter (\<lambda>e. fst e \<noteq> 1) (contents s' h') = contents s' h'"
    by (simp add: filter_empty_conv filter_id_conv)
  with f2 have c': "contents s' h' = [(2, 20)]" by simp
  have goal: "stack_ok h s \<and> consistent s \<and> all_ok h [] \<and> faults h = None \<and>
        contents s h = [(1, 30), (2, 20), (1, 10)] \<and>
        (case drain_key (Suc (Suc 0)) 3 1 s [] h of
           (vs, s', h') \<Rightarrow> vs = [30, 10] \<and> contents s' h' = [(2, 20)])"
    using ok c a v c' unfolding d prod.case by simp
  show ?thesis unfolding run prod.case by (rule goal)
qed

subsection \<open>Writes through references and copy independence\<close>

lemma write_ref_cases:
  "case write_ref r v h of
     Inl e \<Rightarrow> True
   | Inr h' \<Rightarrow>
       map_cells h' = map_cells h \<and> next_addr h' = next_addr h \<and> faults h' = faults h \<and>
       main_cells h' =
         (main_cells h)(ref_list r :=
            map (\<lambda>e. if fst e = ref_node r then (fst e, fst (snd e), v) else e)
              (main_cells h (ref_list r)))"
  by (simp add: write_ref_def set_main_def split: option.split)

lemma key_ids_write:
  "key_ids k (map (\<lambda>e. if fst e = it then (fst e, fst (snd e), v) else e) xs) = key_ids k xs"
  by (induction xs) (auto simp: key_ids_def)

lemma cross_inv_write:
  "cross_inv (map (\<lambda>e. if fst e = it then (fst e, fst (snd e), v) else e) xs) m = cross_inv xs m"
proof -
  let ?f = "\<lambda>e. if fst e = it then (fst e, fst (snd e), v) else e"
  have 1: "map fst (map ?f xs) = map fst xs" by (induction xs) auto
  have 2: "(\<exists>e\<in>set (map ?f xs). fst (snd e) = k) = (\<exists>e\<in>set xs. fst (snd e) = k)" for k
    by (induction xs) auto
  show ?thesis by (simp only: cross_inv_def 1 2 key_ids_write)
qed

lemma stack_ok_write:
  assumes "write_ref r v h = Inr h'" and "stack_ok h x"
  shows "stack_ok h' x"
proof -
  from write_ref_cases[where r=r and v=v and h=h] assms(1)
  have pc: "map_cells h' = map_cells h" and na: "next_addr h' = next_addr h"
    and mc: "main_cells h' =
         (main_cells h)(ref_list r :=
            map (\<lambda>e. if fst e = ref_node r then (fst e, fst (snd e), v) else e)
              (main_cells h (ref_list r)))"
    by simp_all
  from assms(2) show ?thesis
    by (auto simp: stack_ok_def pc na mc cross_inv_write split: option.splits)
qed

lemma write_ref_frame:
  assumes w: "write_ref r v h = Inr h'"
    and priv: "\<forall>x\<in>set xs. main_stack x \<noteq> Some (ref_list r)"
  shows "frame_others xs h h'"
  unfolding frame_others_def
proof (intro ballI impI)
  fix x assume x: "x \<in> set xs" and okx: "stack_ok h x"
  from priv x have ne: "main_stack x \<noteq> Some (ref_list r)" by simp
  from write_ref_cases[where r=r and v=v and h=h] w
  have pc: "map_cells h' = map_cells h"
    and mc: "main_cells h' =
         (main_cells h)(ref_list r :=
            map (\<lambda>e. if fst e = ref_node r then (fst e, fst (snd e), v) else e)
              (main_cells h (ref_list r)))"
    by simp_all
  have dm: "deref_main x h' = deref_main x h"
    using ne by (cases "main_stack x") (simp_all add: deref_main_def mc)
  have dp: "deref_map x h' = deref_map x h" by (simp add: deref_map_def pc)
  from stack_ok_write[OF w okx] dm dp
  show "stack_ok h' x \<and> deref_main x h' = deref_main x h \<and> deref_map x h' = deref_map x h"
    by simp
qed

text \<open>The handle a stack holds after the guard: the one it held, or a freshly allocated one.\<close>

lemma atm_handles:
  assumes "atm_post s others mark h ra s1 h1"
  shows "(main_stack s1 = main_stack s \<or> (\<exists>a. next_addr h \<le> a \<and> main_stack s1 = Some a)) \<and>
         (case ra of
            Inl e \<Rightarrow> True
          | Inr g \<Rightarrow> about_to_modify_dtor g s1 = s \<and>
                     about_to_modify_dtor (drop_roll_back g) s1 = s1)"
  using assms
  by (cases ra)
     (auto simp: atm_post_def guard_of_def about_to_modify_dtor_def drop_roll_back_def)

lemma mutate_handle:
  assumes m: "mutate (Suc (Suc n)) m s others h = (r, s', h')"
    and ok: "stack_ok h s" and oks: "\<forall>x\<in>set others. stack_ok h x"
  shows "main_stack s' = main_stack s \<or> (\<exists>a. next_addr h \<le> a \<and> main_stack s' = Some a)"
proof -
  have fin: ?thesis
    if atm: "about_to_modify (push (Suc k)) s others True h = (ra, s1, h1)"
      and alt: "s' = s \<or> s' = s1 \<or>
                (\<exists>g. ra = Inr g \<and> (s' = about_to_modify_dtor g s1 \<or>
                                     s' = about_to_modify_dtor (drop_roll_back g) s1))"
    for k ra s1 h1
  proof -
    note ah = atm_handles[OF about_to_modify_post[OF atm ok others_bound[OF oks]]]
    from alt ah show ?thesis by (cases ra) auto
  qed
  show ?thesis
  proof (cases m)
    case (Push k v)
    obtain ra s1 h1 where atm: "about_to_modify (push (Suc n)) s others True h = (ra, s1, h1)"
      by (cases "about_to_modify (push (Suc n)) s others True h") auto
    from m Push atm
    have "s' = s \<or> s' = s1 \<or>
          (\<exists>g. ra = Inr g \<and> (s' = about_to_modify_dtor g s1 \<or>
                               s' = about_to_modify_dtor (drop_roll_back g) s1))"
      by (cases ra; cases "push_body k v s1 h1"; cases "fst (push_body k v s1 h1)")
         (auto simp: mutate_def push_with_def)
    from fin[OF atm this] show ?thesis .
  next
    case Pop
    obtain ra s1 h1 where
      atm: "about_to_modify (push (Suc (Suc n))) s others True h = (ra, s1, h1)"
      by (cases "about_to_modify (push (Suc (Suc n))) s others True h") auto
    from m Pop atm
    have "s' = s \<or> s' = s1 \<or>
          (\<exists>g. ra = Inr g \<and> (s' = about_to_modify_dtor g s1 \<or>
                               s' = about_to_modify_dtor (drop_roll_back g) s1))"
      by (cases ra; cases "pop_body s1 h1";
          cases "throw_invalid_argument EmptyContainer h :: error \<times> ('a, 'b) heap")
         (auto simp: mutate_def pop_def split: if_splits)
    from fin[OF atm this] show ?thesis .
  next
    case (PopKey k)
    obtain ra s1 h1 where
      atm: "about_to_modify (push (Suc (Suc n))) s others True h = (ra, s1, h1)"
      by (cases "about_to_modify (push (Suc (Suc n))) s others True h") auto
    from m PopKey atm
    have "s' = s \<or> s' = s1 \<or>
          (\<exists>g. ra = Inr g \<and> (s' = about_to_modify_dtor g s1 \<or>
                               s' = about_to_modify_dtor (drop_roll_back g) s1))"
      by (cases ra; cases "pop_key_body k s1 h1"; cases "fst (pop_key_body k s1 h1)")
         (auto simp: mutate_def pop_key_def)
    from fin[OF atm this] show ?thesis .
  qed
qed

lemma ref_ok_partner:
  assumes "stack_ok h p"
    and "main_stack s' = main_stack s \<or> main_stack s' = None \<or>
         (\<exists>a. next_addr h \<le> a \<and> main_stack s' = Some a) \<or>
         main_stack s' \<noteq> main_stack p \<or> shareable p"
    and "ref_ok (p, rp) (s # others)"
  shows "ref_ok (p, rp) (s' # others)"
  using assms by (cases rp) (auto simp: ref_ok_def stack_ok_def)

text \<open>
  One change to a stack whose kept reference is current: every stack stays well formed,
  the partner observes what it did, and the references kept for both stay current.
\<close>

lemma change_step:
  assumes c: "apply_change (Suc (Suc n)) c sr p others h = (sr', h')"
    and ok: "stack_ok h (fst sr)" and okp: "all_ok h (p # others)"
    and rs: "ref_ok sr (p # others)"
  shows "stack_ok h' (fst sr') \<and> all_ok h' (p # others) \<and> observe p h' = observe p h \<and>
         ref_ok sr' (p # others) \<and>
         (\<forall>rp. ref_ok (p, rp) (fst sr # others) \<longrightarrow> ref_ok (p, rp) (fst sr' # others))"
proof -
  obtain s ro where sr: "sr = (s, ro)" by (cases sr)
  obtain s' ro' where sr': "sr' = (s', ro')" by (cases sr')
  from okp have okP: "stack_ok h p" and oks: "\<forall>x\<in>set (p # others). stack_ok h x"
    by (simp_all add: all_ok_def)
  from ok sr have oks0: "stack_ok h s" by simp
  have fin: ?thesis
    if ok': "stack_ok h' s'" and fr: "frame_others (p # others) h h'"
      and r': "ref_ok (s', ro') (p # others)"
      and hd: "main_stack s' = main_stack s \<or> main_stack s' = None \<or>
               (\<exists>a. next_addr h \<le> a \<and> main_stack s' = Some a) \<or>
               main_stack s' \<noteq> main_stack p \<or> shareable p"
  proof -
    from all_ok_frame[OF fr okp] have 1: "all_ok h' (p # others)" .
    from frame_others_observe[OF fr _ okP] have 2: "observe p h' = observe p h" by simp
    have 3: "\<forall>rp. ref_ok (p, rp) (s # others) \<longrightarrow> ref_ok (p, rp) (s' # others)"
      using ref_ok_partner[OF okP hd] by blast
    from ok' 1 2 r' 3 show ?thesis by (simp add: sr sr')
  qed
  have same: "ref_ok (s', ro') (p # others)" if "s' = s \<or> main_stack s = None" and "ro' = ro"
    using that rs sr by (cases ro) (auto simp: ref_ok_def)
  show ?thesis
  proof (cases c)
    case (Mutate m)
    obtain r where mu: "mutate (Suc (Suc n)) m s (p # others) h = (r, s', h')"
      and ro': "ro' = (case r of Inl e \<Rightarrow> ro | Inr u \<Rightarrow> None)"
      using c Mutate sr sr'
      by (cases "mutate (Suc (Suc n)) m s (p # others) h";
          cases "fst (mutate (Suc (Suc n)) m s (p # others) h)")
         (auto simp: apply_change_def)
    note mp = mutate_correct[OF mu oks0 oks]
    note mh = mutate_handle[OF mu oks0 oks]
    from mp have ok': "stack_ok h' s'" and fr: "frame_others (p # others) h h'"
      by (simp_all add: mutate_post_def)
    have r': "ref_ok (s', ro') (p # others)"
    proof (cases r)
      case (Inr u)
      with ro' show ?thesis by (simp add: ref_ok_def)
    next
      case (Inl e)
      with mp have d: "s' = s \<or> main_stack s = None" by (auto simp: mutate_post_def)
      from Inl ro' have "ro' = ro" by simp
      from same[OF d this] show ?thesis .
    qed
    from mh have "main_stack s' = main_stack s \<or> main_stack s' = None \<or>
               (\<exists>a. next_addr h \<le> a \<and> main_stack s' = Some a) \<or>
               main_stack s' \<noteq> main_stack p \<or> shareable p" by blast
    from fin[OF ok' fr r' this] show ?thesis .
  next
    case CallFront
    obtain r where f: "front_mut (Suc (Suc n)) s (p # others) h = (r, s', h')"
      and ro': "ro' = (case r of Inl e \<Rightarrow> ro | Inr kr \<Rightarrow> Some (snd kr))"
      using c CallFront sr sr'
      by (cases "front_mut (Suc (Suc n)) s (p # others) h";
          cases "fst (front_mut (Suc (Suc n)) s (p # others) h)")
         (auto simp: apply_change_def)
    note post = front_mut_post[OF f oks0 oks]
    from post have ok': "stack_ok h' s'" and fr: "frame_others (p # others) h h'"
      by (simp_all add: kept_def)
    show ?thesis
    proof (cases r)
      case (Inr kr)
      with post have ms: "main_stack s' = Some (ref_list (snd kr))"
        and priv: "\<forall>x\<in>set (p # others). main_stack x \<noteq> Some (ref_list (snd kr))"
        and sh: "\<not> shareable s'" by simp_all
      from ms priv sh ro' Inr have r': "ref_ok (s', ro') (p # others)" by (simp add: ref_ok_def)
      from ms priv have "main_stack s' \<noteq> main_stack p" by auto
      then have "main_stack s' = main_stack s \<or> main_stack s' = None \<or>
               (\<exists>a. next_addr h \<le> a \<and> main_stack s' = Some a) \<or>
               main_stack s' \<noteq> main_stack p \<or> shareable p" by blast
      from fin[OF ok' fr r' this] show ?thesis .
    next
      case (Inl e)
      with post have rb: "rolled_back s h e s' h'" by simp
      then have d: "s' = s \<or> main_stack s = None" by (auto simp: rolled_back_def)
      from Inl ro' have "ro' = ro" by simp
      from same[OF d this] have r': "ref_ok (s', ro') (p # others)" .
      from rb have "main_stack s' = main_stack s \<or> main_stack s' = None \<or>
               (\<exists>a. next_addr h \<le> a \<and> main_stack s' = Some a) \<or>
               main_stack s' \<noteq> main_stack p \<or> shareable p" by (auto simp: rolled_back_def)
      from fin[OF ok' fr r' this] show ?thesis .
    qed
  next
    case (CallFrontKey k)
    obtain r where f: "front_key_mut (Suc (Suc n)) k s (p # others) h = (r, s', h')"
      and ro': "ro' = (case r of Inl e \<Rightarrow> ro | Inr rf \<Rightarrow> Some rf)"
      using c CallFrontKey sr sr'
      by (cases "front_key_mut (Suc (Suc n)) k s (p # others) h";
          cases "fst (front_key_mut (Suc (Suc n)) k s (p # others) h)")
         (auto simp: apply_change_def)
    note post = front_key_mut_post[OF f oks0 oks]
    from post have ok': "stack_ok h' s'" and fr: "frame_others (p # others) h h'"
      by (simp_all add: kept_def)
    show ?thesis
    proof (cases r)
      case (Inr rf)
      with post have ms: "main_stack s' = Some (ref_list rf)"
        and priv: "\<forall>x\<in>set (p # others). main_stack x \<noteq> Some (ref_list rf)"
        and sh: "\<not> shareable s'" by simp_all
      from ms priv sh ro' Inr have r': "ref_ok (s', ro') (p # others)" by (simp add: ref_ok_def)
      from ms priv have "main_stack s' \<noteq> main_stack p" by auto
      then have "main_stack s' = main_stack s \<or> main_stack s' = None \<or>
               (\<exists>a. next_addr h \<le> a \<and> main_stack s' = Some a) \<or>
               main_stack s' \<noteq> main_stack p \<or> shareable p" by blast
      from fin[OF ok' fr r' this] show ?thesis .
    next
      case (Inl e)
      with post have rb: "rolled_back s h e s' h'" by simp
      then have d: "s' = s \<or> main_stack s = None" by (auto simp: rolled_back_def)
      from Inl ro' have "ro' = ro" by simp
      from same[OF d this] have r': "ref_ok (s', ro') (p # others)" .
      from rb have "main_stack s' = main_stack s \<or> main_stack s' = None \<or>
               (\<exists>a. next_addr h \<le> a \<and> main_stack s' = Some a) \<or>
               main_stack s' \<noteq> main_stack p \<or> shareable p" by (auto simp: rolled_back_def)
      from fin[OF ok' fr r' this] show ?thesis .
    qed
  next
    case CallClear
    with c sr sr' have res: "s' = clear s" "ro' = None" "h' = h" by (simp_all add: apply_change_def)
    have ok': "stack_ok h' s'" by (simp add: res clear_def stack_ok_def)
    have fr: "frame_others (p # others) h h'"
      unfolding res by (rule frame_unchanged[OF unchanged_below_refl])
    have r': "ref_ok (s', ro') (p # others)" by (simp add: res ref_ok_def)
    have "main_stack s' = main_stack s \<or> main_stack s' = None \<or>
               (\<exists>a. next_addr h \<le> a \<and> main_stack s' = Some a) \<or>
               main_stack s' \<noteq> main_stack p \<or> shareable p" by (simp add: res clear_def)
    from fin[OF ok' fr r' this] show ?thesis .
  next
    case AssignFrom
    obtain r0 where cc: "stack_copy_ctor (Suc (Suc n)) p (s # others) h = (r0, h')"
      and res: "(s', ro') = (case r0 of Inl e \<Rightarrow> (s, ro) | Inr t \<Rightarrow> (assign s t, None))"
      using c AssignFrom sr sr'
      by (cases "stack_copy_ctor (Suc (Suc n)) p (s # others) h";
          cases "fst (stack_copy_ctor (Suc (Suc n)) p (s # others) h)")
         (auto simp: apply_change_def)
    have oks2: "\<forall>x\<in>set (s # others). stack_ok h x" using oks0 oks by simp
    note post = stack_copy_ctor_post[OF cc okP oks2]
    from post have ub: "unchanged_below h h'" by simp
    note fr = frame_unchanged[OF ub, of "p # others"]
    show ?thesis
    proof (cases r0)
      case (Inl e)
      with res have e: "s' = s" "ro' = ro" by simp_all
      from stack_ok_unchanged[OF ub oks0] e have ok': "stack_ok h' s'" by simp
      have r': "ref_ok (s', ro') (p # others)" by (rule same) (simp_all add: e)
      from e have "main_stack s' = main_stack s \<or> main_stack s' = None \<or>
               (\<exists>a. next_addr h \<le> a \<and> main_stack s' = Some a) \<or>
               main_stack s' \<noteq> main_stack p \<or> shareable p" by simp
      from fin[OF ok' fr r' this] show ?thesis .
    next
      case (Inr t)
      with res have e: "s' = assign s t" "ro' = None" by simp_all
      from post Inr have okt: "stack_ok h' t"
        and alt: "if shareable p then main_stack t = main_stack p
                  else main_stack t = Some (next_addr h)" by (simp_all split: if_splits)
      from okt have ok': "stack_ok h' s'"
        by (simp add: e assign_def swap_st_def stack_ok_def split: option.splits)
      have r': "ref_ok (s', ro') (p # others)" by (simp add: e ref_ok_def)
      have ms: "main_stack s' = main_stack t" by (simp add: e assign_def swap_st_def)
      from alt ms have "main_stack s' = main_stack s \<or> main_stack s' = None \<or>
               (\<exists>a. next_addr h \<le> a \<and> main_stack s' = Some a) \<or>
               main_stack s' \<noteq> main_stack p \<or> shareable p" by (auto split: if_splits)
      from fin[OF ok' fr r' this] show ?thesis .
    qed
  next
    case (WriteRef v)
    have hd: "main_stack s = main_stack s \<or> main_stack s = None \<or>
               (\<exists>a. next_addr h \<le> a \<and> main_stack s = Some a) \<or>
               main_stack s \<noteq> main_stack p \<or> shareable p" by simp
    have idle: ?thesis if e: "s' = s" "ro' = ro" "h' = h"
    proof -
      have fr: "frame_others (p # others) h h'"
        unfolding e by (rule frame_unchanged[OF unchanged_below_refl])
      from oks0 e have ok': "stack_ok h' s'" by simp
      have r': "ref_ok (s', ro') (p # others)" by (rule same) (simp_all add: e)
      from fin[OF ok' fr r'] hd e show ?thesis by simp
    qed
    show ?thesis
    proof (cases ro)
      case None
      with c WriteRef sr sr' have "s' = s" "ro' = ro" "h' = h" by (simp_all add: apply_change_def)
      then show ?thesis by (rule idle)
    next
      case (Some rf)
      show ?thesis
      proof (cases "write_ref rf v h")
        case (Inl e)
        with c WriteRef sr sr' Some have "s' = s" "ro' = ro" "h' = h"
          by (simp_all add: apply_change_def)
        then show ?thesis by (rule idle)
      next
        case (Inr h1)
        with c WriteRef sr sr' Some have e: "s' = s" "ro' = ro" "h' = h1"
          by (simp_all add: apply_change_def)
        from rs sr Some have priv: "\<forall>x\<in>set (p # others). main_stack x \<noteq> Some (ref_list rf)"
          by (simp add: ref_ok_def)
        from write_ref_frame[OF Inr priv] e have fr: "frame_others (p # others) h h'" by simp
        from stack_ok_write[OF Inr oks0] e have ok': "stack_ok h' s'" by simp
        have r': "ref_ok (s', ro') (p # others)" by (rule same) (simp_all add: e)
        from fin[OF ok' fr r'] hd e show ?thesis by simp
      qed
    qed
  qed
qed

lemma interleaved_ok:
  assumes "interleaved (Suc (Suc n)) ops A B others h = (A', B', h')"
    and "stack_ok h (fst A)" and "stack_ok h (fst B)" and "all_ok h others"
    and "ref_ok A (fst B # others)" and "ref_ok B (fst A # others)"
  shows "stack_ok h' (fst A') \<and> stack_ok h' (fst B') \<and> all_ok h' others \<and>
         ref_ok A' (fst B' # others) \<and> ref_ok B' (fst A' # others)"
  using assms
proof (induction ops arbitrary: A B h)
  case Nil
  then show ?case by simp
next
  case (Cons op ops)
  show ?case
  proof (cases "fst op")
    case True
    obtain A1 h1 where m: "apply_change (Suc (Suc n)) (snd op) A (fst B) others h = (A1, h1)"
      by (cases "apply_change (Suc (Suc n)) (snd op) A (fst B) others h") auto
    from Cons.prems(3,4) have okp: "all_ok h (fst B # others)" by simp
    note st = change_step[OF m Cons.prems(2) okp Cons.prems(5)]
    from st have 1: "stack_ok h1 (fst A1)" "stack_ok h1 (fst B)" "all_ok h1 others"
      "ref_ok A1 (fst B # others)" by simp_all
    from st Cons.prems(6) have 2: "ref_ok B (fst A1 # others)"
      by (cases B) auto
    from Cons.prems(1) True m have "interleaved (Suc (Suc n)) ops A1 B others h1 = (A', B', h')"
      by simp
    from Cons.IH[OF this 1 2] show ?thesis .
  next
    case False
    obtain B1 h1 where m: "apply_change (Suc (Suc n)) (snd op) B (fst A) others h = (B1, h1)"
      by (cases "apply_change (Suc (Suc n)) (snd op) B (fst A) others h") auto
    from Cons.prems(2,4) have okp: "all_ok h (fst A # others)" by simp
    note st = change_step[OF m Cons.prems(3) okp Cons.prems(6)]
    from st have 1: "stack_ok h1 (fst B1)" "stack_ok h1 (fst A)" "all_ok h1 others"
      "ref_ok B1 (fst A # others)" by simp_all
    from st Cons.prems(5) have 2: "ref_ok A (fst B1 # others)"
      by (cases A) auto
    from Cons.prems(1) False m have "interleaved (Suc (Suc n)) ops A B1 others h1 = (A', B', h')"
      by simp
    from Cons.IH[OF this 1(2) 1(1) 1(3) 2 1(4)] show ?thesis .
  qed
qed




subsection \<open>The concrete scenario\<close>

text \<open>
  C1 (as the code behaves).  From an empty stack, \<^verbatim>\<open>push("x",1); push("y",2); push("x",3)\<close>
  gives size 3, front \<open>("x",3)\<close> and \<^verbatim>\<open>count("x")\<close> = 2; then \<^verbatim>\<open>pop("x")\<close> gives front
  \<open>("y",2)\<close> and \<^verbatim>\<open>count("x")\<close> = 1; then \<^verbatim>\<open>pop()\<close> removes the front entry \<open>("y",2)\<close>, so the
  size is 1, \<^verbatim>\<open>count("x")\<close> is still 1, \<^verbatim>\<open>count("y")\<close> is 0 and key iteration yields only
  \<open>"x"\<close>.
\<close>

theorem scenario_as_run:
  "(case stack_ctor (empty_heap :: (string, nat) heap) of
      (Inl e, h0) \<Rightarrow> False
    | (Inr s0, h0) \<Rightarrow>
        (case mutate_all 2 [Push ''x'' 1, Push ''y'' 2, Push ''x'' 3] s0 [] h0 of
           (rs, s3, h3) \<Rightarrow>
             rs = [Inr (), Inr (), Inr ()] \<and> size_st s3 h3 = 3 \<and>
             front s3 h3 = Inr (''x'', 3) \<and> count_st ''x'' s3 h3 = Inr 2 \<and>
             (case pop_key 2 ''x'' s3 [] h3 of
                (r4, s4, h4) \<Rightarrow>
                  r4 = Inr () \<and> front s4 h4 = Inr (''y'', 2) \<and> count_st ''x'' s4 h4 = Inr 1 \<and>
                  (case pop 2 s4 [] h4 of
                     (r5, s5, h5) \<Rightarrow>
                       r5 = Inr () \<and> size_st s5 h5 = 1 \<and> count_st ''x'' s5 h5 = Inr 1 \<and>
                       count_st ''y'' s5 h5 = Inr 0 \<and> keys s5 h5 = [''x'']))))"
  by code_simp

text \<open>
  The scenario as the specification words it ends with \<^verbatim>\<open>count("x")\<close> = 0 and the key
  iteration \<open>["y"]\<close>; the run does not.
\<close>

theorem scenario_as_worded_fails:
  "\<not> (case stack_ctor (empty_heap :: (string, nat) heap) of
      (Inl e, h0) \<Rightarrow> False
    | (Inr s0, h0) \<Rightarrow>
        (case mutate_all 2 [Push ''x'' 1, Push ''y'' 2, Push ''x'' 3] s0 [] h0 of
           (rs, s3, h3) \<Rightarrow>
             rs = [Inr (), Inr (), Inr ()] \<and> size_st s3 h3 = 3 \<and>
             front s3 h3 = Inr (''x'', 3) \<and> count_st ''x'' s3 h3 = Inr 2 \<and>
             (case pop_key 2 ''x'' s3 [] h3 of
                (r4, s4, h4) \<Rightarrow>
                  r4 = Inr () \<and> front s4 h4 = Inr (''y'', 2) \<and> count_st ''x'' s4 h4 = Inr 1 \<and>
                  (case pop 2 s4 [] h4 of
                     (r5, s5, h5) \<Rightarrow>
                       r5 = Inr () \<and> size_st s5 h5 = 1 \<and> count_st ''x'' s5 h5 = Inr 0 \<and>
                       keys s5 h5 = [''y'']))))"
  by code_simp

subsection \<open>A failed allocation inside the copy-on-write guard\<close>

text \<open>
  C2 (where the code breaks it).  A cleared stack has no storage.  \<^verbatim>\<open>push("x",5)\<close> whose
  second allocation fails throws \<^verbatim>\<open>bad_alloc\<close> out of the constructor of
  \<^verbatim>\<open>about_to_modify\<close> after \<^verbatim>\<open>s.main_stack\<close> was assigned and before \<^verbatim>\<open>s.stacks_map\<close> was:
  the destructor of the guard never runs.  Before the call \<^verbatim>\<open>count("x")\<close> is 0; after it
  the stack has a list and no map, \<^verbatim>\<open>count("x")\<close> dereferences the empty handle, and so
  does the next \<^verbatim>\<open>push\<close>.
\<close>

theorem push_half_allocated:
  "(let s = clear \<lparr>main_stack = Some 0, stacks_map = Some 1, shareable = True\<rparr>;
        h = (empty_heap :: (string, nat) heap)\<lparr>next_addr := 2\<rparr>
    in count_st ''x'' s h = Inr 0 \<and>
       (case push 2 ''x'' 5 s [] (h\<lparr>faults := Some 1\<rparr>) of
          (r, s', h') \<Rightarrow>
            r = Inl BadAlloc \<and>
            s' = \<lparr>main_stack = Some 2, stacks_map = None, shareable = True\<rparr> \<and>
            count_st ''x'' s' (no_faults h') = Inl Undefined \<and>
            count_st ''x'' s' (no_faults h') \<noteq> count_st ''x'' s (no_faults h) \<and>
            fst (push 2 ''x'' 5 s' [] (no_faults h')) = Inl Undefined))"
  by code_simp

end
